theory Spec2Isabelle
  imports Main "HOL-Library.Multiset"
begin

section \<open>NewsRiver client: identity, conflict resolution, first-seen sequence, ordering\<close>

text \<open>
  A shallow embedding of the de-duplication and ordering core of \<^verbatim>\<open>assets/app.js\<close>
  (functions \<^verbatim>\<open>loadSeqState\<close>, \<^verbatim>\<open>saveSeqState\<close>, \<^verbatim>\<open>isAggregator\<close>,
  \<^verbatim>\<open>fuzzyTitleKey\<close>, \<^verbatim>\<open>hostPath\<close>, \<^verbatim>\<open>dedupeKey\<close>, \<^verbatim>\<open>chooseBetter\<close>,
  \<^verbatim>\<open>dedupeItems\<close>, \<^verbatim>\<open>assignStableSeq\<close>, \<^verbatim>\<open>normalize\<close>).

  Conventions.
  \<^item> A JavaScript string is a \<open>string\<close>; text outside ASCII is its UTF-8 byte sequence.
  \<^item> An optional field of a feed item is a \<open>string option\<close>; \<open>None\<close> is an absent
    field. JavaScript treats an absent field and the empty string alike in \<^verbatim>\<open>if (x)\<close>
    and \<^verbatim>\<open>x || y\<close>; \<open>truthy\<close> and \<open>orElse\<close> below are these two tests.
  \<^item> Functions of the JavaScript platform that the source calls (\<^verbatim>\<open>new URL\<close>,
    \<^verbatim>\<open>Date.parse\<close>, the conversion of a string or an array to a number) are
    parameters, collected in the record \<open>platform\<close>; \<^verbatim>\<open>new URL\<close> that throws and
    \<^verbatim>\<open>Date.parse\<close> that yields \<^verbatim>\<open>NaN\<close> return \<open>None\<close>.
  \<^item> Numbers are the integers among the doubles: the counters and millisecond time stamps
    the program handles. \<open>Num n\<close> stands for the double of value \<open>n\<close>, as \<^verbatim>\<open>JSON.parse\<close>
    returns it. The one sum the source computes, \<^verbatim>\<open>counter += 1\<close>, is rounded as a double
    (\<open>add_one\<close>). Fractions are outside the model.
\<close>

subsection \<open>Strings\<close>

definition lower_char :: "char \<Rightarrow> char" where
  "lower_char c =
     (case map_of (zip ''ABCDEFGHIJKLMNOPQRSTUVWXYZ'' ''abcdefghijklmnopqrstuvwxyz'') c of
        Some d \<Rightarrow> d
      | None \<Rightarrow> c)"

text \<open>
  \<^verbatim>\<open>String.prototype.toLowerCase\<close>. The source applies it only in front of matches
  against ASCII letters, digits and punctuation, so what matters is which ASCII characters
  the result holds: \<open>A\<close> to \<open>Z\<close> are mapped to \<open>a\<close> to \<open>z\<close>, and the two characters
  outside ASCII whose lower case contains an ASCII letter are mapped as JavaScript does
  (U+212A KELVIN SIGN to \<open>k\<close>, U+0130 to \<open>i\<close> followed by U+0307). Every other byte is
  kept.
\<close>

fun toLowerCase :: "string \<Rightarrow> string" where
  "toLowerCase [] = []"
| "toLowerCase (c # cs) =
     (if c = CHR 0xE2 \<and> take 2 cs = [CHR 0x84, CHR 0xAA]
        then CHR ''k'' # toLowerCase (drop 2 cs)
      else if c = CHR 0xC4 \<and> take 1 cs = [CHR 0xB0]
        then CHR ''i'' # CHR 0xCC # CHR 0x87 # toLowerCase (drop 1 cs)
      else lower_char c # toLowerCase cs)"

definition startsWith :: "string \<Rightarrow> string \<Rightarrow> bool" where
  "startsWith s p = (take (length p) s = p)"

definition endsWith :: "string \<Rightarrow> string \<Rightarrow> bool" where
  "endsWith s p = (length p \<le> length s \<and> drop (length s - length p) s = p)"

text \<open>\<^verbatim>\<open>s.indexOf(p)\<close>: the position of the first occurrence of \<open>p\<close>, or \<open>-1\<close>.\<close>

fun indexOf_from :: "nat \<Rightarrow> string \<Rightarrow> string \<Rightarrow> int" where
  "indexOf_from i [] p = (if p = [] then int i else - 1)"
| "indexOf_from i (c # cs) p =
     (if startsWith (c # cs) p then int i else indexOf_from (Suc i) cs p)"

definition indexOf :: "string \<Rightarrow> string \<Rightarrow> int" where
  "indexOf s p = indexOf_from 0 s p"

text \<open>A regular expression that is one literal, tested anywhere in the string.\<close>

definition contains_lit :: "string \<Rightarrow> string \<Rightarrow> bool" where
  "contains_lit s p = (0 \<le> indexOf s p)"

text \<open>\<^verbatim>\<open>xs.join(sep)\<close>.\<close>

fun join :: "string \<Rightarrow> string list \<Rightarrow> string" where
  "join sep [] = []"
| "join sep [x] = x"
| "join sep (x # y # ys) = x @ sep @ join sep (y # ys)"

subsection \<open>JavaScript values and the platform\<close>

text \<open>A JavaScript number: an integer or \<^verbatim>\<open>NaN\<close>.\<close>

datatype number = NaN | Num int

text \<open>
  The values \<^verbatim>\<open>JSON.parse\<close> returns, and the values held in the sequence map in
  memory. \<^verbatim>\<open>JSON.parse\<close> never returns \<^verbatim>\<open>NaN\<close>; the program can store it.
\<close>

datatype jsval =
    JNull
  | JBool bool
  | JNum number
  | JStr string
  | JArr "jsval list"
  | JObj "(string \<times> jsval) list"

text \<open>What the source reads of a parsed \<^verbatim>\<open>URL\<close> object.\<close>

record url_parts =
  host :: string
  pathname :: string

text \<open>
  The platform: \<open>URL_ctor\<close> is \<^verbatim>\<open>new URL(u)\<close> (\<open>None\<close> when it throws),
  \<open>Date_parse\<close> is \<^verbatim>\<open>Date.parse\<close> on a string (\<open>None\<close> for \<^verbatim>\<open>NaN\<close>), and
  \<open>ToNumber\<close> is the conversion of a string or an array to a number.
\<close>

record platform =
  URL_ctor :: "string \<Rightarrow> url_parts option"
  Date_parse :: "string \<Rightarrow> int option"
  ToNumber :: "jsval \<Rightarrow> number"

subsection \<open>Feed items\<close>

text \<open>
  The fields of a feed item that the source reads. \<open>seq\<close> is the property
  \<^verbatim>\<open>__seq\<close> that \<^verbatim>\<open>assignStableSeq\<close> attaches (\<open>None\<close> before that).
\<close>

record feed_item =
  title :: "string option"
  url :: "string option"
  canonical_url :: "string option"
  canonical_id :: "string option"
  cluster_id :: "string option"
  source :: "string option"
  published_utc :: "string option"
  published :: "string option"
  paywall :: bool
  category :: "string option"
  region :: "string option"
  seq :: "jsval option"

text \<open>\<^verbatim>\<open>if (x)\<close> on an optional string: present and not empty.\<close>

fun truthy :: "string option \<Rightarrow> bool" where
  "truthy None = False"
| "truthy (Some s) = (s \<noteq> [])"

text \<open>\<^verbatim>\<open>x || d\<close> on an optional string with a string default.\<close>

fun orElse :: "string option \<Rightarrow> string \<Rightarrow> string" where
  "orElse None d = d"
| "orElse (Some s) d = (if s = [] then d else s)"

subsection \<open>Identity resolver\<close>

text \<open>
  \<^verbatim>\<open>isAggregator\<close>: the source and the link, joined by a blank and lower-cased, are
  tested against
  \<^verbatim>\<open>/news\.google|google news|news\.yahoo|apple\.news|feedburner|rss\./\<close>.
\<close>

definition aggregator_signatures :: "string list" where
  "aggregator_signatures =
     [''news.google'', ''google news'', ''news.yahoo'', ''apple.news'', ''feedburner'', ''rss.'']"

definition isAggregator :: "feed_item \<Rightarrow> bool" where
  "isAggregator it =
     (let src = toLowerCase (orElse (source it) [] @ '' '' @ orElse (url it) [])
      in list_ex (contains_lit src) aggregator_signatures)"

definition STOPWORDS :: "string list" where
  "STOPWORDS =
     [''the'', ''a'', ''an'', ''and'', ''or'', ''but'', ''of'', ''for'', ''with'', ''without'',
      ''in'', ''on'', ''at'', ''to'', ''from'', ''by'', ''as'', ''into'', ''over'', ''under'',
      ''than'', ''about'',
      ''after'', ''before'', ''due'', ''will'', ''still'', ''just'', ''not'', ''is'', ''are'',
      ''was'', ''were'', ''be'', ''being'', ''been'', ''it'', ''its'', ''this'', ''that'',
      ''these'', ''those'',
      ''live'', ''update'', ''breaking'', ''video'', ''photos'', ''report'', ''reports'',
      ''says'', ''say'', ''said'',
      ''vs'', ''vs.'', ''game'', ''games'', ''preview'', ''recap'', ''season'', ''start'',
      ''starts'', ''starting'', ''lineup'',
      ''dead'', ''killed'', ''kills'', ''kill'', ''dies'', ''die'', ''injured'', ''injures'',
      ''injury'',
      ''los'', ''angeles'', ''new'', ''york'', ''la'']"

text \<open>
  The length in bytes of a white-space character (\<^verbatim>\<open>\s\<close>) at the head of the string,
  \<open>0\<close> when the string does not begin with one: tab, line feed, vertical tab, form feed,
  carriage return, blank, and in UTF-8 U+00A0, U+1680, U+2000 to U+200A, U+2028, U+2029,
  U+202F, U+205F, U+3000, U+FEFF.
\<close>

definition ws_len :: "string \<Rightarrow> nat" where
  "ws_len s =
     (if take 1 s \<in> {[CHR 0x09], [CHR 0x0A], [CHR 0x0B], [CHR 0x0C], [CHR 0x0D], '' ''} then 1
      else if take 2 s = [CHR 0xC2, CHR 0xA0] then 2
      else if take 3 s \<in>
           {[CHR 0xE1, CHR 0x9A, CHR 0x80], [CHR 0xE2, CHR 0x80, CHR 0xA8],
            [CHR 0xE2, CHR 0x80, CHR 0xA9], [CHR 0xE2, CHR 0x80, CHR 0xAF],
            [CHR 0xE2, CHR 0x81, CHR 0x9F], [CHR 0xE3, CHR 0x80, CHR 0x80],
            [CHR 0xEF, CHR 0xBB, CHR 0xBF]}
           \<union> (\<lambda>b. [CHR 0xE2, CHR 0x80, b]) `
               {CHR 0x80, CHR 0x81, CHR 0x82, CHR 0x83, CHR 0x84, CHR 0x85, CHR 0x86,
                CHR 0x87, CHR 0x88, CHR 0x89, CHR 0x8A} then 3
      else 0)"

text \<open>The length of a dash of the class \<^verbatim>\<open>[-\<close>U+2013 U+2014\<^verbatim>\<open>]\<close> at the head.\<close>

definition dash_len :: "string \<Rightarrow> nat" where
  "dash_len s =
     (if take 1 s = ''-'' then 1
      else if take 3 s = [CHR 0xE2, CHR 0x80, CHR 0x93] \<or> take 3 s = [CHR 0xE2, CHR 0x80, CHR 0x94]
        then 3
      else 0)"

text \<open>Drops the maximal run of white space at the head; the run is what \<^verbatim>\<open>\s+\<close> takes
  when a character that is not white space has to follow.\<close>

function skip_ws :: "string \<Rightarrow> string" where
  "skip_ws s = (if ws_len s = 0 \<or> s = [] then s else skip_ws (drop (ws_len s) s))"
  by pat_completeness auto
termination
  by (relation "measure length") auto

text \<open>
  Whether the whole string matches \<^verbatim>\<open>\s+[-\<close>U+2013 U+2014\<^verbatim>\<open>]\s+[^|]+$\<close>: white space, one
  dash, then at least one white-space character and at least one further character, none
  of them a bar, up to the end.
\<close>

definition tail_matches :: "string \<Rightarrow> bool" where
  "tail_matches s =
     (0 < ws_len s \<and>
      (let d = skip_ws s in
       0 < dash_len d \<and>
       (let r = drop (dash_len d) d in
        0 < ws_len r \<and> drop (ws_len r) r \<noteq> [] \<and> CHR ''|'' \<notin> set r)))"

text \<open>\<^verbatim>\<open>stripSourceTail\<close>: the leftmost match of the expression is removed.\<close>

fun strip_tail :: "string \<Rightarrow> string" where
  "strip_tail [] = []"
| "strip_tail (c # cs) = (if tail_matches (c # cs) then [] else c # strip_tail cs)"

definition stripSourceTail :: "string option \<Rightarrow> string" where
  "stripSourceTail t = strip_tail (orElse t [])"

text \<open>\<^verbatim>\<open>tokenize\<close>: the maximal runs of \<^verbatim>\<open>[a-z0-9]\<close> of the lower-cased text.\<close>

definition is_token_char :: "char \<Rightarrow> bool" where
  "is_token_char c = (c \<in> set ''abcdefghijklmnopqrstuvwxyz0123456789'')"

fun runs :: "string \<Rightarrow> string \<Rightarrow> string list" where
  "runs cur [] = (if cur = [] then [] else [cur])"
| "runs cur (c # cs) =
     (if is_token_char c then runs (cur @ [c]) cs
      else if cur = [] then runs [] cs
      else cur # runs [] cs)"

definition tokenize :: "string \<Rightarrow> string list" where
  "tokenize text = runs [] (toLowerCase text)"

text \<open>The order of \<^verbatim>\<open>Array.prototype.sort\<close> without a comparator, on strings: by code
  unit, a proper prefix first.\<close>

fun str_le :: "string \<Rightarrow> string \<Rightarrow> bool" where
  "str_le [] ys = True"
| "str_le (x # xs) [] = False"
| "str_le (x # xs) (y # ys) =
     ((of_char x :: nat) < of_char y \<or> (x = y \<and> str_le xs ys))"

fun insert_str :: "string \<Rightarrow> string list \<Rightarrow> string list" where
  "insert_str x [] = [x]"
| "insert_str x (y # ys) = (if str_le x y then x # y # ys else y # insert_str x ys)"

definition sort_strs :: "string list \<Rightarrow> string list" where
  "sort_strs xs = foldr insert_str xs []"

text \<open>\<^verbatim>\<open>Array.from(new Set(xs))\<close>: the first occurrence of each element, in order.\<close>

fun uniq_acc :: "'a list \<Rightarrow> 'a list \<Rightarrow> 'a list" where
  "uniq_acc seen [] = []"
| "uniq_acc seen (x # xs) =
     (if x \<in> set seen then uniq_acc seen xs else x # uniq_acc (x # seen) xs)"

definition uniq :: "'a list \<Rightarrow> 'a list" where
  "uniq xs = uniq_acc [] xs"

definition fuzzyTitleKey :: "string option \<Rightarrow> string" where
  "fuzzyTitleKey t =
     (let base = stripSourceTail t;
          toks = filter (\<lambda>w. 1 < length w \<and> w \<notin> set STOPWORDS) (tokenize base)
      in if toks = []
         then ''fk:'' @ (let j = take 160 (join ''|'' (tokenize base))
                         in if j = [] then ''empty'' else j)
         else ''fk:'' @ join ''|'' (take 12 (sort_strs (uniq toks))))"

text \<open>
  \<^verbatim>\<open>hostPath\<close>, given the platform's \<^verbatim>\<open>new URL\<close> (\<open>None\<close> when it throws). The
  \<^verbatim>\<open>catch\<close> branch strips a leading \<^verbatim>\<open>http://\<close> or \<^verbatim>\<open>https://\<close> and cuts at the first
  \<open>?\<close> and then at the first \<open>#\<close>.
\<close>

definition strip_scheme :: "string \<Rightarrow> string" where
  "strip_scheme u =
     (if startsWith u ''http://'' then drop 7 u
      else if startsWith u ''https://'' then drop 8 u
      else u)"

definition hostPath :: "platform \<Rightarrow> string \<Rightarrow> string" where
  "hostPath P u =
     (case URL_ctor P u of
        Some parsed \<Rightarrow>
          (let h0 = toLowerCase (host parsed);
               h1 = (if startsWith h0 ''m.'' \<and> indexOf h0 ''.'' > 1 then drop 2 h0 else h0);
               h2 = (if startsWith h1 ''mobile.'' \<and> indexOf h1 ''.'' > 6 then drop 7 h1 else h1);
               p0 = (if pathname parsed = [] then ''/'' else pathname parsed);
               p1 = (if p0 \<noteq> ''/'' \<and> endsWith p0 ''/'' then butlast p0 else p0)
           in h2 @ p1)
      | None \<Rightarrow>
          takeWhile (\<lambda>c. c \<noteq> CHR ''#'') (takeWhile (\<lambda>c. c \<noteq> CHR ''?'') (strip_scheme u)))"

definition dedupeKey :: "platform \<Rightarrow> feed_item \<Rightarrow> string" where
  "dedupeKey P it =
     (if truthy (cluster_id it) then ''c:'' @ the (cluster_id it)
      else if truthy (canonical_id it) then ''i:'' @ the (canonical_id it)
      else if truthy (canonical_url it) then ''u:'' @ hostPath P (the (canonical_url it))
      else if truthy (url it) then ''u:'' @ hostPath P (the (url it))
      else fuzzyTitleKey (title it))"

subsection \<open>Conflict resolver\<close>

text \<open>
  \<^verbatim>\<open>Date.parse(a.published_utc || a.published || 0) || 0\<close>: with neither field set the
  number \<open>0\<close> is passed, which \<^verbatim>\<open>Date.parse\<close> reads as the string \<^verbatim>\<open>"0"\<close>.
\<close>

definition published_arg :: "feed_item \<Rightarrow> string" where
  "published_arg it = orElse (published_utc it) (orElse (published it) ''0'')"

definition timeOf :: "platform \<Rightarrow> feed_item \<Rightarrow> int" where
  "timeOf P it = (case Date_parse P (published_arg it) of None \<Rightarrow> 0 | Some t \<Rightarrow> t)"

definition chooseBetter :: "platform \<Rightarrow> feed_item \<Rightarrow> feed_item \<Rightarrow> feed_item" where
  "chooseBetter P a b =
     (let ta = timeOf P a; tb = timeOf P b in
      if tb \<noteq> ta then (if tb > ta then b else a)
      else let aggA = isAggregator a; aggB = isAggregator b in
      if aggA \<noteq> aggB then (if aggA then b else a)
      else let pwA = paywall a; pwB = paywall b in
      if pwA \<noteq> pwB then (if pwA then b else a)
      else a)"

text \<open>
  \<^verbatim>\<open>Map.prototype.set\<close>, and \<^verbatim>\<open>obj[k] = v\<close> on an object: an existing key keeps its
  place, a new key is added at the end.
\<close>

fun assoc_set :: "('k \<times> 'a) list \<Rightarrow> 'k \<Rightarrow> 'a \<Rightarrow> ('k \<times> 'a) list" where
  "assoc_set [] k v = [(k, v)]"
| "assoc_set ((k', v') # kvs) k v =
     (if k' = k then (k, v) # kvs else (k', v') # assoc_set kvs k v)"

fun dedupe_loop :: "platform \<Rightarrow> (string \<times> feed_item) list \<Rightarrow> feed_item list
    \<Rightarrow> (string \<times> feed_item) list" where
  "dedupe_loop P byKey [] = byKey"
| "dedupe_loop P byKey (it # its) =
     (let key = dedupeKey P it in
      case map_of byKey key of
        None \<Rightarrow> dedupe_loop P (assoc_set byKey key it) its
      | Some prev \<Rightarrow> dedupe_loop P (assoc_set byKey key (chooseBetter P prev it)) its)"

definition dedupeItems :: "platform \<Rightarrow> feed_item list \<Rightarrow> feed_item list" where
  "dedupeItems P items = map snd (dedupe_loop P [] items)"

subsection \<open>Sequence store\<close>

text \<open>
  What \<^verbatim>\<open>localStorage\<close> holds under the key \<^verbatim>\<open>nr_seq_v1\<close>: nothing, a text that
  \<^verbatim>\<open>JSON.parse\<close> rejects (the empty text among them), or a text that it accepts, given
  by the value it parses to. \<open>readable\<close> and \<open>writable\<close> say whether \<^verbatim>\<open>getItem\<close> and
  \<^verbatim>\<open>setItem\<close> return rather than throw; \<open>writes\<close> counts the completed writes.
\<close>

datatype stored = Absent | Malformed string | Wellformed jsval

record storage =
  content :: stored
  readable :: bool
  writable :: bool
  writes :: nat

text \<open>
  The object \<^verbatim>\<open>state.map\<close> in memory: its own named properties, and its elements when
  it is an array (\<^verbatim>\<open>typeof\<close> an array is \<^verbatim>\<open>"object"\<close>, so \<^verbatim>\<open>loadSeqState\<close> accepts
  one). Every identity key contains a colon, so it names neither an element or the length
  of an array nor a member of a prototype: looking a key up reads \<open>props\<close> only.
\<close>

record jsobj =
  elems :: "jsval list option"
  props :: "(string \<times> jsval) list"

record seq_state =
  counter :: number
  map_field :: jsobj

definition fresh_state :: seq_state where
  "fresh_state = \<lparr>counter = Num 0, map_field = \<lparr>elems = None, props = []\<rparr>\<rparr>"

text \<open>\<^verbatim>\<open>if (v)\<close> on a value.\<close>

fun js_truthy :: "jsval \<Rightarrow> bool" where
  "js_truthy JNull = False"
| "js_truthy (JBool b) = b"
| "js_truthy (JNum NaN) = False"
| "js_truthy (JNum (Num n)) = (n \<noteq> 0)"
| "js_truthy (JStr s) = (s \<noteq> [])"
| "js_truthy (JArr xs) = True"
| "js_truthy (JObj kvs) = True"

text \<open>\<^verbatim>\<open>Number(v)\<close>, and the conversion that \<^verbatim>\<open>-\<close> applies to an operand.\<close>

fun Number_of :: "platform \<Rightarrow> jsval \<Rightarrow> number" where
  "Number_of P JNull = Num 0"
| "Number_of P (JBool b) = (if b then Num 1 else Num 0)"
| "Number_of P (JNum n) = n"
| "Number_of P (JStr s) = ToNumber P (JStr s)"
| "Number_of P (JArr xs) = ToNumber P (JArr xs)"
| "Number_of P (JObj kvs) = NaN"

text \<open>
  \<^verbatim>\<open>parsed?.counter\<close> and \<^verbatim>\<open>parsed?.map\<close>: an own property of a plain object. On any
  other value the two names give \<^verbatim>\<open>undefined\<close>, or for \<^verbatim>\<open>map\<close> on an array a function,
  which the \<^verbatim>\<open>typeof\<close> test of the source rejects just as it rejects \<^verbatim>\<open>undefined\<close>.
\<close>

fun get_field :: "jsval \<Rightarrow> string \<Rightarrow> jsval option" where
  "get_field (JObj kvs) k = map_of kvs k"
| "get_field v k = None"

definition loadSeqState :: "platform \<Rightarrow> storage \<Rightarrow> seq_state" where
  "loadSeqState P st =
     (if \<not> readable st then fresh_state
      else case content st of
        Absent \<Rightarrow> fresh_state
      | Malformed raw \<Rightarrow> fresh_state
      | Wellformed parsed \<Rightarrow>
          \<lparr>counter =
             (case get_field parsed ''counter'' of
                None \<Rightarrow> Num 0
              | Some c \<Rightarrow> if js_truthy c then Number_of P c else Num 0),
           map_field =
             (case get_field parsed ''map'' of
                Some (JObj kvs) \<Rightarrow> \<lparr>elems = None, props = kvs\<rparr>
              | Some (JArr xs) \<Rightarrow> \<lparr>elems = Some xs, props = []\<rparr>
              | _ \<Rightarrow> \<lparr>elems = None, props = []\<rparr>)\<rparr>)"

text \<open>
  The value that the text written by \<^verbatim>\<open>JSON.stringify(state)\<close> parses to: \<^verbatim>\<open>NaN\<close> is
  written as \<^verbatim>\<open>null\<close>, and of an array only the elements are written.
\<close>

fun json_value :: "jsval \<Rightarrow> jsval" where
  "json_value (JNum NaN) = JNull"
| "json_value v = v"

definition stringify_state :: "seq_state \<Rightarrow> jsval" where
  "stringify_state s =
     JObj [(''counter'', json_value (JNum (counter s))),
           (''map'',
            (case elems (map_field s) of
               Some xs \<Rightarrow> JArr xs
             | None \<Rightarrow> JObj (map (\<lambda>(k, v). (k, json_value v)) (props (map_field s)))))]"

definition saveSeqState :: "seq_state \<Rightarrow> storage \<Rightarrow> storage" where
  "saveSeqState s st =
     (if writable st
      then st\<lparr>content := Wellformed (stringify_state s), writes := Suc (writes st)\<rparr>
      else st)"

definition getItemId :: "platform \<Rightarrow> feed_item \<Rightarrow> string" where
  "getItemId P it = dedupeKey P it"

text \<open>\<^verbatim>\<open>state.map[id]\<close>, \<open>None\<close> for \<^verbatim>\<open>undefined\<close>.\<close>

definition lookup :: "seq_state \<Rightarrow> string \<Rightarrow> jsval option" where
  "lookup s k = map_of (props (map_field s)) k"

text \<open>\<^verbatim>\<open>state.map[id] == null\<close>: the property is missing or \<^verbatim>\<open>null\<close>.\<close>

definition unseen :: "seq_state \<Rightarrow> string \<Rightarrow> bool" where
  "unseen s k = (lookup s k \<in> {None, Some JNull})"

text \<open>
  \<^verbatim>\<open>x + 1\<close> on a number that is an integer. JavaScript adds in IEEE 754 double
  precision and rounds to nearest, ties to the even significand. From \<open>- 2 ^ 53\<close> up to
  \<open>2 ^ 53 - 1\<close> the sum is exact. From \<open>2 ^ 53\<close> on, and below \<open>- 2 ^ 53\<close>, only every
  second integer is a double up to magnitude \<open>2 ^ 54\<close>: there \<open>n + 1\<close> lies half way
  between \<open>n\<close> and \<open>n + 2\<close> and the even significand is taken; beyond that the sum
  rounds back to \<open>n\<close>. So \<open>2 ^ 53 + 1\<close> is \<open>2 ^ 53\<close>.
\<close>

definition add_one :: "int \<Rightarrow> int" where
  "add_one n =
     (if - (2 ^ 53) \<le> n \<and> n < 2 ^ 53 then n + 1
      else if 2 ^ 53 \<le> \<bar>n\<bar> \<and> \<bar>n\<bar> < 2 ^ 54 \<and> odd (n div 2) then n + 2
      else n)"

fun plus_one :: "number \<Rightarrow> number" where
  "plus_one NaN = NaN"
| "plus_one (Num n) = Num (add_one n)"

text \<open>\<^verbatim>\<open>state.counter += 1; state.map[id] = state.counter;\<close>\<close>

definition record_key :: "seq_state \<Rightarrow> string \<Rightarrow> seq_state" where
  "record_key s k =
     (let c = plus_one (counter s)
      in s\<lparr>counter := c,
           map_field := (map_field s)\<lparr>props := assoc_set (props (map_field s)) k (JNum c)\<rparr>\<rparr>)"

text \<open>
  The loop of \<^verbatim>\<open>assignStableSeq\<close>: the state, the flag \<^verbatim>\<open>touched\<close> and the items that
  carry their \<^verbatim>\<open>__seq\<close>, in order.
\<close>

fun assign_loop :: "platform \<Rightarrow> seq_state \<Rightarrow> bool \<Rightarrow> feed_item list
    \<Rightarrow> seq_state \<times> bool \<times> feed_item list" where
  "assign_loop P s touched [] = (s, touched, [])"
| "assign_loop P s touched (it # its) =
     (let k = getItemId P it;
          (s1, touched1) = (if unseen s k then (record_key s k, True) else (s, touched));
          it1 = it\<lparr>seq := lookup s1 k\<rparr>;
          (s2, touched2, its1) = assign_loop P s1 touched1 its
      in (s2, touched2, it1 # its1))"

definition assignStableSeq :: "platform \<Rightarrow> feed_item list \<Rightarrow> storage
    \<Rightarrow> feed_item list \<times> storage" where
  "assignStableSeq P items st =
     (let (s, touched, items1) = assign_loop P (loadSeqState P st) False items
      in (items1, if touched then saveSeqState s st else st))"

text \<open>
  The invariant of the sequence record as the specification states it: the counter is an
  integer, the map is a plain object, every value of the map is an integer that is at most
  the counter, and no two keys have the same integer.
\<close>

definition is_int_at_most :: "int \<Rightarrow> jsval \<Rightarrow> bool" where
  "is_int_at_most c v = (case v of JNum (Num n) \<Rightarrow> n \<le> c | _ \<Rightarrow> False)"

definition seq_inv :: "seq_state \<Rightarrow> bool" where
  "seq_inv s =
     (case counter s of
        NaN \<Rightarrow> False
      | Num c \<Rightarrow>
          elems (map_field s) = None \<and>
          list_all (is_int_at_most c) (map snd (props (map_field s))) \<and>
          distinct (map fst (props (map_field s))) \<and>
          distinct (map snd (props (map_field s))))"

text \<open>
  A weaker property, which every pass keeps whatever the counter is: the counter is an
  integer, the map is a plain object, and every value of the map is an integer.
\<close>

definition is_int :: "jsval \<Rightarrow> bool" where
  "is_int v = (case v of JNum (Num n) \<Rightarrow> True | _ \<Rightarrow> False)"

definition int_record :: "seq_state \<Rightarrow> bool" where
  "int_record s =
     (counter s \<noteq> NaN \<and> elems (map_field s) = None \<and>
      list_all is_int (map snd (props (map_field s))))"

subsection \<open>Ordering engine\<close>

text \<open>\<^verbatim>\<open>(x.__seq || 0)\<close> as the operand of a subtraction.\<close>

definition seq_num :: "platform \<Rightarrow> feed_item \<Rightarrow> number" where
  "seq_num P it =
     (case seq it of
        None \<Rightarrow> Num 0
      | Some v \<Rightarrow> if js_truthy v then Number_of P v else Num 0)"

text \<open>
  The difference of two integers. The source uses only its sign and whether it is zero,
  which rounding to a double does not change, so the exact difference is written.
\<close>

fun minus_num :: "number \<Rightarrow> number \<Rightarrow> number" where
  "minus_num (Num a) (Num b) = Num (a - b)"
| "minus_num x y = NaN"

text \<open>The comparator that \<^verbatim>\<open>normalize\<close> passes to \<^verbatim>\<open>sort\<close>.\<close>

definition compare_items :: "platform \<Rightarrow> feed_item \<Rightarrow> feed_item \<Rightarrow> number" where
  "compare_items P a b =
     (let d = minus_num (seq_num P b) (seq_num P a) in
      if d \<noteq> Num 0 then d
      else Num (timeOf P b - timeOf P a))"

text \<open>
  \<^verbatim>\<open>Array.prototype.sort\<close> with a comparator is stable: \<open>a\<close> moves behind \<open>b\<close> only when
  the comparator is positive on \<open>(a, b)\<close>; \<^verbatim>\<open>NaN\<close> counts as zero. Insertion from the
  right computes the stable order.
\<close>

fun positive :: "number \<Rightarrow> bool" where
  "positive NaN = False"
| "positive (Num n) = (0 < n)"

fun insert_item :: "platform \<Rightarrow> feed_item \<Rightarrow> feed_item list \<Rightarrow> feed_item list" where
  "insert_item P x [] = [x]"
| "insert_item P x (y # ys) =
     (if positive (compare_items P x y) then y # insert_item P x ys else x # y # ys)"

definition sort_items :: "platform \<Rightarrow> feed_item list \<Rightarrow> feed_item list" where
  "sort_items P xs = foldr (insert_item P) xs []"

text \<open>
  \<^verbatim>\<open>normalize\<close>: the argument is \<open>None\<close> when \<^verbatim>\<open>data\<close> is missing or \<^verbatim>\<open>data.items\<close> is
  not an array. The result is the item list of the returned object, and the storage.
\<close>

definition normalize :: "platform \<Rightarrow> feed_item list option \<Rightarrow> storage
    \<Rightarrow> feed_item list \<times> storage" where
  "normalize P data st =
     (case data of
        None \<Rightarrow> ([], st)
      | Some items \<Rightarrow>
          (let deduped = dedupeItems P items;
               (deduped1, st1) = assignStableSeq P deduped st
           in (sort_items P deduped1, st1)))"

subsection \<open>The specification's reading of a time stamp\<close>

text \<open>
  The time stamp as the specification words it, for comparison with \<open>timeOf\<close>: the
  parsed \<open>published_utc\<close>, and epoch \<open>0\<close> when the field is missing or does not parse.
\<close>

definition spec_published_time :: "platform \<Rightarrow> feed_item \<Rightarrow> int" where
  "spec_published_time P it =
     (case published_utc it of
        None \<Rightarrow> 0
      | Some s \<Rightarrow> (case Date_parse P s of None \<Rightarrow> 0 | Some t \<Rightarrow> t))"

subsection \<open>The specification's order of the output\<close>

text \<open>
  The order that the specification asks of two neighbours of the output: the larger
  sequence number first, and on equal numbers the later time first. It is stated for items
  whose \<^verbatim>\<open>__seq\<close> converts to a number.
\<close>

definition spec_order :: "platform \<Rightarrow> feed_item \<Rightarrow> feed_item \<Rightarrow> bool" where
  "spec_order P a b =
     (case (seq_num P a, seq_num P b) of
        (Num m, Num n) \<Rightarrow> n < m \<or> (m = n \<and> timeOf P b \<le> timeOf P a)
      | _ \<Rightarrow> False)"

subsection \<open>Example data\<close>

text \<open>An item with no field set.\<close>

definition blank_item :: feed_item where
  "blank_item =
     \<lparr>title = None, url = None, canonical_url = None, canonical_id = None, cluster_id = None,
      source = None, published_utc = None, published = None, paywall = False,
      category = None, region = None, seq = None\<rparr>"

text \<open>
  The platform at the inputs of the examples below. \<^verbatim>\<open>new URL\<close> follows the WHATWG URL
  standard: the host of an \<^verbatim>\<open>https\<close> address is returned in lower case, the path as it
  is written. \<^verbatim>\<open>Date.parse\<close> follows the date-time string format of ECMAScript. The
  tables say nothing about the platform at other inputs: there the examples' platform
  reports a failure.
\<close>

definition URL_examples :: "string \<Rightarrow> url_parts option" where
  "URL_examples u =
     map_of
       [(''https://M.Example.com/Story/'', \<lparr>host = ''m.example.com'', pathname = ''/Story/''\<rparr>),
        (''https://example.com/story'', \<lparr>host = ''example.com'', pathname = ''/story''\<rparr>),
        (''https://Example.com/story/'', \<lparr>host = ''example.com'', pathname = ''/story/''\<rparr>),
        (''https://a.com/b'', \<lparr>host = ''a.com'', pathname = ''/b''\<rparr>)] u"

definition Date_examples :: "string \<Rightarrow> int option" where
  "Date_examples d =
     map_of
       [(''2024-01-01T00:00:00Z'', 1704067200000),
        (''2024-01-01T00:05:00Z'', 1704067500000),
        (''1969-12-31T00:00:00Z'', - 86400000)] d"

definition example_platform :: platform where
  "example_platform =
     \<lparr>URL_ctor = URL_examples, Date_parse = Date_examples, ToNumber = (\<lambda>v. NaN)\<rparr>"

definition empty_storage :: storage where
  "empty_storage = \<lparr>content = Absent, readable = True, writable = True, writes = 0\<rparr>"

text \<open>A storage whose record has the counter \<open>2 ^ 53\<close> and an empty map.\<close>

definition storage_at_limit :: storage where
  "storage_at_limit =
     \<lparr>content = Wellformed (JObj [(''counter'', JNum (Num (2 ^ 53))), (''map'', JObj [])]),
      readable = True, writable = True, writes = 0\<rparr>"

section \<open>Properties\<close>

subsection \<open>Identity resolver\<close>

text \<open>
  Claim C1. The identity key comes from the first signal that is available, in the order
  \<open>cluster_id\<close>, \<open>canonical_id\<close>, \<open>canonical_url\<close>, \<open>url\<close>, title: \<open>c:\<close> and the
  cluster id, else \<open>i:\<close> and the canonical id, else \<open>u:\<close> and the normalized canonical
  address, else \<open>u:\<close> and the normalized address, else the fuzzy title signature. A
  signal is available when the field is present and not empty, which is the test
  \<^verbatim>\<open>if (it.cluster_id)\<close> of the source. Hence an item with cluster id \<open>X\<close> and canonical
  address \<^verbatim>\<open>https://a.com/b\<close> has the key of any item with cluster id \<open>X\<close>, and not
  the key of an item that has that canonical address and neither identifier.
\<close>

theorem dedupeKey_priority:
  "(truthy (cluster_id it) \<longrightarrow> dedupeKey P it = ''c:'' @ the (cluster_id it)) \<and>
   (\<not> truthy (cluster_id it) \<and> truthy (canonical_id it) \<longrightarrow>
      dedupeKey P it = ''i:'' @ the (canonical_id it)) \<and>
   (\<not> truthy (cluster_id it) \<and> \<not> truthy (canonical_id it) \<and> truthy (canonical_url it) \<longrightarrow>
      dedupeKey P it = ''u:'' @ hostPath P (the (canonical_url it))) \<and>
   (\<not> truthy (cluster_id it) \<and> \<not> truthy (canonical_id it) \<and> \<not> truthy (canonical_url it) \<and>
    truthy (url it) \<longrightarrow>
      dedupeKey P it = ''u:'' @ hostPath P (the (url it))) \<and>
   (\<not> truthy (cluster_id it) \<and> \<not> truthy (canonical_id it) \<and> \<not> truthy (canonical_url it) \<and>
    \<not> truthy (url it) \<longrightarrow>
      dedupeKey P it = fuzzyTitleKey (title it)) \<and>
   (cluster_id a = Some ''X'' \<and> canonical_url a = Some ''https://a.com/b'' \<and>
    cluster_id b = Some ''X'' \<and>
    \<not> truthy (cluster_id c) \<and> \<not> truthy (canonical_id c) \<and>
    canonical_url c = Some ''https://a.com/b'' \<longrightarrow>
      dedupeKey P a = dedupeKey P b \<and> dedupeKey P a \<noteq> dedupeKey P c)"
  by (simp add: dedupeKey_def)

theorem dedupeKey_priority_witness:
  "dedupeKey example_platform
       (blank_item\<lparr>cluster_id := Some ''X'', canonical_url := Some ''https://a.com/b''\<rparr>)
     = dedupeKey example_platform (blank_item\<lparr>cluster_id := Some ''X''\<rparr>) \<and>
   dedupeKey example_platform
       (blank_item\<lparr>cluster_id := Some ''X'', canonical_url := Some ''https://a.com/b''\<rparr>)
     \<noteq> dedupeKey example_platform (blank_item\<lparr>canonical_url := Some ''https://a.com/b''\<rparr>) \<and>
   dedupeKey example_platform (blank_item\<lparr>canonical_url := Some ''https://a.com/b''\<rparr>)
     = ''u:a.com/b'' \<and>
   dedupeKey example_platform (blank_item\<lparr>title := Some ''Storm Hits Region - Example.com''\<rparr>)
     = fuzzyTitleKey (Some ''Storm Hits Region - Example.com'')"
  using dedupeKey_priority [where P = example_platform
      and it = "blank_item\<lparr>title := Some ''Storm Hits Region - Example.com''\<rparr>"
      and a = "blank_item\<lparr>cluster_id := Some ''X'', canonical_url := Some ''https://a.com/b''\<rparr>"
      and b = "blank_item\<lparr>cluster_id := Some ''X''\<rparr>"
      and c = "blank_item\<lparr>canonical_url := Some ''https://a.com/b''\<rparr>"]
    dedupeKey_priority [where P = example_platform
      and it = "blank_item\<lparr>canonical_url := Some ''https://a.com/b''\<rparr>"
      and a = blank_item and b = blank_item and c = blank_item]
  by (auto simp add: blank_item_def example_platform_def URL_examples_def hostPath_def
        startsWith_def endsWith_def indexOf_def lower_char_def)

text \<open>
  Every identity key contains a colon; the title of the specification's example has the
  signature of its three words.
\<close>

lemma dedupeKey_has_colon: "CHR '':'' \<in> set (dedupeKey P it)"
  by (simp add: dedupeKey_def fuzzyTitleKey_def Let_def)

lemma fuzzyTitleKey_example:
  "fuzzyTitleKey (Some ''Storm Hits Region - Example.com'') = ''fk:hits|region|storm''"
  by code_simp

lemma takeWhile_twice:
  "takeWhile p (takeWhile q xs) = takeWhile (\<lambda>x. q x \<and> p x) xs"
  by (induction xs) auto

lemma indexOf_m_prefix: "startsWith h ''m.'' \<Longrightarrow> indexOf h ''.'' = 1"
  by (cases h; cases "tl h") (auto simp: startsWith_def indexOf_def)

lemma indexOf_mobile_prefix: "startsWith h ''mobile.'' \<Longrightarrow> indexOf h ''.'' = 6"
proof -
  assume "startsWith h ''mobile.''"
  then obtain r where h: "h = ''mobile.'' @ r"
    unfolding startsWith_def by (metis append_take_drop_id)
  show ?thesis unfolding h by (simp add: indexOf_def startsWith_def)
qed

lemma endsWith_slash: "p \<noteq> [] \<Longrightarrow> endsWith p ''/'' = (last p = CHR ''/'')"
  by (induction p rule: rev_induct) (auto simp: endsWith_def)

text \<open>
  The two tests that guard the removal of a leading \<open>m.\<close> or \<open>mobile.\<close> compare the
  position of the first dot of the host with \<open>1\<close> and \<open>6\<close>, which is where the dot of the
  prefix itself is: the label is never removed.
\<close>

lemma hostPath_keeps_mobile_label:
  "URL_ctor P u = Some p \<Longrightarrow>
   hostPath P u =
     toLowerCase (host p) @
     (if pathname p = [] \<or> pathname p = ''/'' then ''/''
      else if last (pathname p) = CHR ''/'' then butlast (pathname p)
      else pathname p)"
  by (auto simp: hostPath_def Let_def endsWith_slash indexOf_m_prefix indexOf_mobile_prefix)

text \<open>
  The two addresses that claim C2 names normalize to different strings: the path keeps its
  capital letter (and the host its first label).
\<close>

theorem hostPath_mobile_counterexample:
  "hostPath example_platform ''https://M.Example.com/Story/'' = ''m.example.com/Story'' \<and>
   hostPath example_platform ''https://example.com/story'' = ''example.com/story'' \<and>
   hostPath example_platform ''https://M.Example.com/Story/''
     \<noteq> hostPath example_platform ''https://example.com/story''"
  by (simp add: hostPath_def example_platform_def URL_examples_def startsWith_def endsWith_def
        indexOf_def lower_char_def)

text \<open>
  Claim C2, as the code has it. \<^verbatim>\<open>hostPath\<close> parses the address, lower-cases the host,
  keeps the host and the path only, and drops one trailing slash of a path that is not the
  root; when the address does not parse it drops a leading \<^verbatim>\<open>http://\<close> or \<^verbatim>\<open>https://\<close>
  and cuts at the first \<open>?\<close> or \<open>#\<close>. The case of the path is kept, so
  \<^verbatim>\<open>https://Example.com/story/\<close> and \<^verbatim>\<open>https://example.com/story\<close> normalize to the
  same string, and \<^verbatim>\<open>https://M.Example.com/Story/\<close> and \<^verbatim>\<open>https://example.com/story\<close> do
  not. The statement is about hosts that do not begin with \<open>m.\<close> or \<open>mobile.\<close>.
\<close>

theorem hostPath_host_and_path:
  "(URL_ctor P u = None \<longrightarrow>
      hostPath P u = takeWhile (\<lambda>c. c \<noteq> CHR ''?'' \<and> c \<noteq> CHR ''#'') (strip_scheme u)) \<and>
   (URL_ctor P u = Some p \<and>
    \<not> startsWith (toLowerCase (host p)) ''m.'' \<and> \<not> startsWith (toLowerCase (host p)) ''mobile.'' \<longrightarrow>
      hostPath P u =
        toLowerCase (host p) @
        (if pathname p = [] \<or> pathname p = ''/'' then ''/''
         else if last (pathname p) = CHR ''/'' then butlast (pathname p)
         else pathname p)) \<and>
   hostPath example_platform ''https://Example.com/story/''
     = hostPath example_platform ''https://example.com/story''"
proof (intro conjI impI)
  assume "URL_ctor P u = None"
  then show "hostPath P u = takeWhile (\<lambda>c. c \<noteq> CHR ''?'' \<and> c \<noteq> CHR ''#'') (strip_scheme u)"
    by (simp add: hostPath_def takeWhile_twice)
next
  assume "URL_ctor P u = Some p \<and>
    \<not> startsWith (toLowerCase (host p)) ''m.'' \<and> \<not> startsWith (toLowerCase (host p)) ''mobile.''"
  then show "hostPath P u =
        toLowerCase (host p) @
        (if pathname p = [] \<or> pathname p = ''/'' then ''/''
         else if last (pathname p) = CHR ''/'' then butlast (pathname p)
         else pathname p)"
    by (auto simp: hostPath_def Let_def endsWith_slash)
next
  show "hostPath example_platform ''https://Example.com/story/''
     = hostPath example_platform ''https://example.com/story''"
    by (simp add: hostPath_def example_platform_def URL_examples_def startsWith_def endsWith_def
        indexOf_def lower_char_def)
qed

theorem hostPath_host_and_path_witness:
  "hostPath example_platform ''https://a.com/b'' = ''a.com/b'' \<and>
   hostPath example_platform ''a.com/b?x=1#y'' = ''a.com/b''"
  using hostPath_host_and_path [where P = example_platform and u = "''https://a.com/b''"
      and p = "\<lparr>host = ''a.com'', pathname = ''/b''\<rparr>"]
    hostPath_host_and_path [where P = example_platform and u = "''a.com/b?x=1#y''"]
  by (simp add: example_platform_def URL_examples_def startsWith_def strip_scheme_def lower_char_def)

subsection \<open>Conflict resolver\<close>

lemma google_news_is_aggregator:
  "source g = Some ''Google News'' \<Longrightarrow> isAggregator g"
  by (simp add: isAggregator_def aggregator_signatures_def contains_lit_def indexOf_def
        startsWith_def lower_char_def)

text \<open>
  Against claim C3 as it is worded: an item without \<open>published_utc\<close> is not always the
  older one. The source reads the field \<open>published\<close> in its place, so the item dated
  00:05 in \<open>published\<close> is kept against the item dated 00:00 in \<open>published_utc\<close>.
\<close>

theorem chooseBetter_published_counterexample:
  "dedupeKey example_platform
       (blank_item\<lparr>cluster_id := Some ''s1'', published := Some ''2024-01-01T00:05:00Z''\<rparr>)
     = dedupeKey example_platform
       (blank_item\<lparr>cluster_id := Some ''s1'', published_utc := Some ''2024-01-01T00:00:00Z''\<rparr>) \<and>
   spec_published_time example_platform
       (blank_item\<lparr>cluster_id := Some ''s1'', published := Some ''2024-01-01T00:05:00Z''\<rparr>)
     < spec_published_time example_platform
       (blank_item\<lparr>cluster_id := Some ''s1'', published_utc := Some ''2024-01-01T00:00:00Z''\<rparr>) \<and>
   chooseBetter example_platform
       (blank_item\<lparr>cluster_id := Some ''s1'', published := Some ''2024-01-01T00:05:00Z''\<rparr>)
       (blank_item\<lparr>cluster_id := Some ''s1'', published_utc := Some ''2024-01-01T00:00:00Z''\<rparr>)
     \<noteq> blank_item\<lparr>cluster_id := Some ''s1'', published_utc := Some ''2024-01-01T00:00:00Z''\<rparr>"
  by (simp add: dedupeKey_def spec_published_time_def chooseBetter_def timeOf_def
        published_arg_def blank_item_def example_platform_def Date_examples_def)

text \<open>
  Claim C3, as the code has it. \<^verbatim>\<open>chooseBetter\<close> returns the strictly newer item; on
  equal times the one that is not an aggregator when exactly one is; then the one that is
  not paywalled when exactly one is; otherwise the first argument. The time of an item is
  \<^verbatim>\<open>Date.parse\<close> of \<open>published_utc\<close>, or of \<open>published\<close> when \<open>published_utc\<close> is
  missing or empty, or of the number \<open>0\<close> when both are; a result that is not a number
  counts as \<open>0\<close>. For two items of equal time, one of source \<open>Google News\<close> and one of
  source \<open>Reuters\<close> whose link carries no aggregator signature, the survivor is the
  Reuters item, whichever comes first.
\<close>

theorem chooseBetter_decision:
  "(timeOf P a < timeOf P b \<longrightarrow> chooseBetter P a b = b) \<and>
   (timeOf P b < timeOf P a \<longrightarrow> chooseBetter P a b = a) \<and>
   (timeOf P a = timeOf P b \<and> isAggregator a \<and> \<not> isAggregator b \<longrightarrow> chooseBetter P a b = b) \<and>
   (timeOf P a = timeOf P b \<and> \<not> isAggregator a \<and> isAggregator b \<longrightarrow> chooseBetter P a b = a) \<and>
   (timeOf P a = timeOf P b \<and> isAggregator a = isAggregator b \<and> paywall a \<and> \<not> paywall b \<longrightarrow>
      chooseBetter P a b = b) \<and>
   (timeOf P a = timeOf P b \<and> isAggregator a = isAggregator b \<and> \<not> paywall a \<and> paywall b \<longrightarrow>
      chooseBetter P a b = a) \<and>
   (timeOf P a = timeOf P b \<and> isAggregator a = isAggregator b \<and> paywall a = paywall b \<longrightarrow>
      chooseBetter P a b = a) \<and>
   timeOf P it =
     (case Date_parse P
        (if truthy (published_utc it) then the (published_utc it)
         else if truthy (published it) then the (published it)
         else ''0'') of
        None \<Rightarrow> 0
      | Some t \<Rightarrow> t) \<and>
   (timeOf P g = timeOf P r \<and> source g = Some ''Google News'' \<and> source r = Some ''Reuters'' \<and>
    \<not> isAggregator r \<longrightarrow>
      chooseBetter P g r = r \<and> chooseBetter P r g = r)"
proof -
  have t: "timeOf P it =
     (case Date_parse P
        (if truthy (published_utc it) then the (published_utc it)
         else if truthy (published it) then the (published it)
         else ''0'') of
        None \<Rightarrow> 0
      | Some t \<Rightarrow> t)"
    by (cases "published_utc it"; cases "published it") (auto simp: timeOf_def published_arg_def)
  have s: "timeOf P g = timeOf P r \<and> source g = Some ''Google News'' \<and> source r = Some ''Reuters'' \<and>
    \<not> isAggregator r \<longrightarrow> chooseBetter P g r = r \<and> chooseBetter P r g = r"
    using google_news_is_aggregator [of g] by (auto simp: chooseBetter_def)
  show ?thesis
    using t s by (auto simp: chooseBetter_def)
qed

theorem chooseBetter_decision_witness:
  "chooseBetter example_platform
     (blank_item\<lparr>cluster_id := Some ''s1'', source := Some ''Google News'',
                  published_utc := Some ''2024-01-01T00:00:00Z''\<rparr>)
     (blank_item\<lparr>cluster_id := Some ''s1'', source := Some ''Reuters'',
                  published_utc := Some ''2024-01-01T00:00:00Z''\<rparr>)
   = blank_item\<lparr>cluster_id := Some ''s1'', source := Some ''Reuters'',
                  published_utc := Some ''2024-01-01T00:00:00Z''\<rparr> \<and>
   chooseBetter example_platform
     (blank_item\<lparr>cluster_id := Some ''s1'', source := Some ''Reuters'',
                  published_utc := Some ''2024-01-01T00:00:00Z''\<rparr>)
     (blank_item\<lparr>cluster_id := Some ''s1'', source := Some ''Google News'',
                  published_utc := Some ''2024-01-01T00:00:00Z''\<rparr>)
   = blank_item\<lparr>cluster_id := Some ''s1'', source := Some ''Reuters'',
                  published_utc := Some ''2024-01-01T00:00:00Z''\<rparr>"
proof -
  let ?g = "blank_item\<lparr>cluster_id := Some ''s1'', source := Some ''Google News'',
                  published_utc := Some ''2024-01-01T00:00:00Z''\<rparr>"
  let ?r = "blank_item\<lparr>cluster_id := Some ''s1'', source := Some ''Reuters'',
                  published_utc := Some ''2024-01-01T00:00:00Z''\<rparr>"
  have 1: "timeOf example_platform ?g = timeOf example_platform ?r"
    by (simp add: timeOf_def published_arg_def blank_item_def)
  have 2: "source ?g = Some ''Google News''" "source ?r = Some ''Reuters''"
    by (simp_all add: blank_item_def)
  have 3: "\<not> isAggregator ?r"
    by (simp add: isAggregator_def aggregator_signatures_def contains_lit_def indexOf_def
        startsWith_def lower_char_def blank_item_def)
  show ?thesis
    using chooseBetter_decision [where P = example_platform and g = ?g and r = ?r] 1 2 3
    by blast
qed

subsection \<open>Sequence store: loading\<close>




subsection \<open>De-duplication\<close>

lemma uniq_acc_cong: "set seen = set seen' \<Longrightarrow> uniq_acc seen xs = uniq_acc seen' xs"
proof (induction xs arbitrary: seen seen')
  case Nil
  then show ?case by simp
next
  case (Cons x xs)
  have "uniq_acc (x # seen) xs = uniq_acc (x # seen') xs"
    by (rule Cons.IH) (simp add: Cons.prems)
  moreover have "uniq_acc seen xs = uniq_acc seen' xs"
    by (rule Cons.IH) (rule Cons.prems)
  ultimately show ?case using Cons.prems by simp
qed

lemma set_uniq_acc: "set (uniq_acc seen xs) = set xs - set seen"
  by (induction xs arbitrary: seen) auto

lemma distinct_uniq_acc: "distinct (uniq_acc seen xs)"
  by (induction xs arbitrary: seen) (auto simp: set_uniq_acc)

lemma set_uniq: "set (uniq xs) = set xs"
  by (simp add: uniq_def set_uniq_acc)

lemma distinct_uniq: "distinct (uniq xs)"
  by (simp add: uniq_def distinct_uniq_acc)

lemma assoc_set_keys:
  "map fst (assoc_set kvs k v) = (if k \<in> fst ` set kvs then map fst kvs else map fst kvs @ [k])"
  by (induction kvs) force+

lemma set_assoc_set: "set (assoc_set kvs k v) \<subseteq> insert (k, v) (set kvs)"
  by (induction kvs) (auto split: if_splits)

lemma chooseBetter_cases: "chooseBetter P a b = a \<or> chooseBetter P a b = b"
  by (simp add: chooseBetter_def Let_def)

lemma dedupe_loop_keys:
  "map fst (dedupe_loop P byKey items) =
     map fst byKey @ uniq_acc (map fst byKey) (map (dedupeKey P) items)"
proof (induction items arbitrary: byKey)
  case Nil
  then show ?case by simp
next
  case (Cons it its)
  let ?k = "dedupeKey P it"
  show ?case
  proof (cases "map_of byKey ?k")
    case None
    then have notin: "?k \<notin> fst ` set byKey"
      by (simp add: map_of_eq_None_iff)
    have "map fst (dedupe_loop P (assoc_set byKey ?k it) its) =
        (map fst byKey @ [?k]) @ uniq_acc (map fst byKey @ [?k]) (map (dedupeKey P) its)"
      using Cons.IH [of "assoc_set byKey ?k it"] notin by (simp add: assoc_set_keys)
    moreover have "uniq_acc (map fst byKey @ [?k]) (map (dedupeKey P) its)
        = uniq_acc (?k # map fst byKey) (map (dedupeKey P) its)"
      by (rule uniq_acc_cong) auto
    ultimately show ?thesis using None notin by simp
  next
    case (Some prev)
    then have isin: "?k \<in> fst ` set byKey"
      by (metis map_of_eq_None_iff option.distinct(1))
    show ?thesis
      using Cons.IH [of "assoc_set byKey ?k (chooseBetter P prev it)"] Some isin
      by (simp add: assoc_set_keys)
  qed
qed

lemma dedupe_loop_key_inv:
  "(\<And>k x. (k, x) \<in> set byKey \<Longrightarrow> dedupeKey P x = k) \<Longrightarrow>
   (k, x) \<in> set (dedupe_loop P byKey items) \<Longrightarrow> dedupeKey P x = k"
proof (induction items arbitrary: byKey)
  case Nil
  then show ?case by simp
next
  case (Cons it its)
  let ?k = "dedupeKey P it"
  show ?case
  proof (cases "map_of byKey ?k")
    case None
    have inv: "\<And>k x. (k, x) \<in> set (assoc_set byKey ?k it) \<Longrightarrow> dedupeKey P x = k"
      using set_assoc_set [of byKey ?k it] Cons.prems(1) by auto
    show ?thesis
      using Cons.IH [OF inv] Cons.prems(2) None by simp
  next
    case (Some prev)
    then have "dedupeKey P prev = ?k"
      using Cons.prems(1) by (meson map_of_SomeD)
    then have kb: "dedupeKey P (chooseBetter P prev it) = ?k"
      using chooseBetter_cases [of P prev it] by auto
    have inv: "\<And>k x. (k, x) \<in> set (assoc_set byKey ?k (chooseBetter P prev it)) \<Longrightarrow> dedupeKey P x = k"
      using set_assoc_set [of byKey ?k "chooseBetter P prev it"] Cons.prems(1) kb by auto
    show ?thesis
      using Cons.IH [OF inv] Cons.prems(2) Some by simp
  qed
qed

lemma dedupeItems_keys:
  "map (dedupeKey P) (dedupeItems P items) = uniq (map (dedupeKey P) items)"
proof -
  have "map (dedupeKey P) (map snd (dedupe_loop P [] items)) = map fst (dedupe_loop P [] items)"
    using dedupe_loop_key_inv [of "[]" P _ _ items] by (auto simp: map_eq_conv)
  then show ?thesis
    by (simp add: dedupeItems_def uniq_def dedupe_loop_keys)
qed

lemma dedupe_loop_subset:
  "(k, x) \<in> set (dedupe_loop P byKey items) \<Longrightarrow> (k, x) \<in> set byKey \<or> x \<in> set items"
proof (induction items arbitrary: byKey)
  case Nil
  then show ?case by simp
next
  case (Cons it its)
  let ?k = "dedupeKey P it"
  show ?case
  proof (cases "map_of byKey ?k")
    case None
    then have "(k, x) \<in> set (assoc_set byKey ?k it) \<or> x \<in> set its"
      using Cons.IH [of "assoc_set byKey ?k it"] Cons.prems by simp
    then show ?thesis
      using set_assoc_set [of byKey ?k it] by auto
  next
    case (Some prev)
    then have prev: "(?k, prev) \<in> set byKey"
      by (simp add: map_of_SomeD)
    have "(k, x) \<in> set (assoc_set byKey ?k (chooseBetter P prev it)) \<or> x \<in> set its"
      using Cons.IH [of "assoc_set byKey ?k (chooseBetter P prev it)"] Cons.prems Some by simp
    then show ?thesis
      using set_assoc_set [of byKey ?k "chooseBetter P prev it"] prev
        chooseBetter_cases [of P prev it] by auto
  qed
qed

lemma dedupeItems_subset: "set (dedupeItems P items) \<subseteq> set items"
  using dedupe_loop_subset [of _ _ P "[]" items] by (auto simp: dedupeItems_def)

lemma count_in_distinct:
  "distinct zs \<Longrightarrow> length (filter (\<lambda>z. z = k) zs) = (if k \<in> set zs then 1 else 0)"
  by (induction zs) auto

lemma dedupeItems_count:
  "length (filter (\<lambda>y. dedupeKey P y = k) (dedupeItems P items))
     = (if k \<in> dedupeKey P ` set items then 1 else 0)"
proof -
  have "length (filter (\<lambda>y. dedupeKey P y = k) (dedupeItems P items))
      = length (filter (\<lambda>z. z = k) (map (dedupeKey P) (dedupeItems P items)))"
    by (simp add: filter_map comp_def)
  also have "\<dots> = (if k \<in> set (uniq (map (dedupeKey P) items)) then 1 else 0)"
    unfolding dedupeItems_keys by (rule count_in_distinct) (rule distinct_uniq)
  finally show ?thesis by (simp add: set_uniq)
qed

text \<open>
  Claim C9. Whenever two items of the input share a cluster id (present and not empty),
  their identity key is \<open>c:\<close> and that id, and the output of \<^verbatim>\<open>dedupeItems\<close> holds
  exactly one item with that key; so does the output for every permutation of the input.
\<close>

theorem dedupeItems_one_per_cluster:
  "x \<in> set items \<and> y \<in> set items \<and> truthy (cluster_id x) \<and> cluster_id y = cluster_id x \<and>
   mset items' = mset items \<longrightarrow>
     dedupeKey P x = ''c:'' @ the (cluster_id x) \<and> dedupeKey P y = dedupeKey P x \<and>
     length (filter (\<lambda>z. dedupeKey P z = dedupeKey P x) (dedupeItems P items)) = 1 \<and>
     length (filter (\<lambda>z. dedupeKey P z = dedupeKey P x) (dedupeItems P items')) = 1"
proof (intro impI)
  assume a: "x \<in> set items \<and> y \<in> set items \<and> truthy (cluster_id x) \<and> cluster_id y = cluster_id x \<and>
   mset items' = mset items"
  then have "set items' = set items"
    by (metis set_mset_mset)
  with a show "dedupeKey P x = ''c:'' @ the (cluster_id x) \<and> dedupeKey P y = dedupeKey P x \<and>
     length (filter (\<lambda>z. dedupeKey P z = dedupeKey P x) (dedupeItems P items)) = 1 \<and>
     length (filter (\<lambda>z. dedupeKey P z = dedupeKey P x) (dedupeItems P items')) = 1"
    by (simp add: dedupeItems_count) (simp add: dedupeKey_def)
qed

theorem dedupeItems_one_per_cluster_witness:
  "length (filter (\<lambda>z. dedupeKey example_platform z = ''c:s1'')
     (dedupeItems example_platform
        [blank_item\<lparr>cluster_id := Some ''s1'', source := Some ''Google News''\<rparr>,
         blank_item\<lparr>cluster_id := Some ''s2''\<rparr>,
         blank_item\<lparr>cluster_id := Some ''s1'', source := Some ''Reuters''\<rparr>])) = 1 \<and>
   length (filter (\<lambda>z. dedupeKey example_platform z = ''c:s1'')
     (dedupeItems example_platform
        [blank_item\<lparr>cluster_id := Some ''s1'', source := Some ''Reuters''\<rparr>,
         blank_item\<lparr>cluster_id := Some ''s1'', source := Some ''Google News''\<rparr>,
         blank_item\<lparr>cluster_id := Some ''s2''\<rparr>])) = 1"
proof -
  let ?g = "blank_item\<lparr>cluster_id := Some ''s1'', source := Some ''Google News''\<rparr>"
  let ?r = "blank_item\<lparr>cluster_id := Some ''s1'', source := Some ''Reuters''\<rparr>"
  let ?o = "blank_item\<lparr>cluster_id := Some ''s2''\<rparr>"
  have k: "dedupeKey example_platform ?g = ''c:s1''"
    by (simp add: dedupeKey_def blank_item_def)
  have h: "?g \<in> set [?g, ?o, ?r] \<and> ?r \<in> set [?g, ?o, ?r] \<and> truthy (cluster_id ?g) \<and>
      cluster_id ?r = cluster_id ?g \<and> mset [?r, ?g, ?o] = mset [?g, ?o, ?r]"
    by (simp add: blank_item_def)
  show ?thesis
    using dedupeItems_one_per_cluster [where P = example_platform and x = ?g and y = ?r
        and items = "[?g, ?o, ?r]" and items' = "[?r, ?g, ?o]"] h
    unfolding k by blast
qed

subsection \<open>Sequence store: assigning\<close>

lemma add_one_exact: "- (2 ^ 53) \<le> n \<Longrightarrow> n < 2 ^ 53 \<Longrightarrow> add_one n = n + 1"
  by (simp add: add_one_def)

lemma add_one_ge: "n \<le> add_one n"
  by (simp add: add_one_def)

lemma add_one_stuck: "add_one (2 ^ 53) = 2 ^ 53"
  by (simp add: add_one_def)

lemma map_of_assoc_set: "map_of (assoc_set kvs k v) = (map_of kvs)(k \<mapsto> v)"
  by (induction kvs) (auto simp: fun_eq_iff)

lemma assoc_set_fresh: "k \<notin> fst ` set kvs \<Longrightarrow> assoc_set kvs k v = kvs @ [(k, v)]"
  by (induction kvs) auto

lemma lookup_record_key:
  "lookup (record_key s k) k' = (if k' = k then Some (JNum (plus_one (counter s))) else lookup s k')"
  by (simp add: lookup_def record_key_def Let_def map_of_assoc_set)

lemma counter_record_key: "counter (record_key s k) = plus_one (counter s)"
  by (simp add: record_key_def Let_def)

lemma elems_record_key: "elems (map_field (record_key s k)) = elems (map_field s)"
  by (simp add: record_key_def Let_def)

lemma unseen_record_key: "k' \<noteq> k \<Longrightarrow> unseen (record_key s k) k' = unseen s k'"
  by (simp add: unseen_def lookup_record_key)

lemma dedupeKey_seq [simp]: "dedupeKey P (it\<lparr>seq := v\<rparr>) = dedupeKey P it"
  by (simp add: dedupeKey_def)

lemma getItemId_seq [simp]: "getItemId P (it\<lparr>seq := v\<rparr>) = getItemId P it"
  by (simp add: getItemId_def)

lemma seq_inv_lookup:
  "seq_inv s \<Longrightarrow> lookup s k = Some v \<Longrightarrow> \<exists>c n. counter s = Num c \<and> v = JNum (Num n) \<and> n \<le> c"
proof -
  assume inv: "seq_inv s" and l: "lookup s k = Some v"
  then obtain c where c: "counter s = Num c"
    by (cases "counter s") (auto simp: seq_inv_def)
  have "v \<in> snd ` set (props (map_field s))"
    using l by (metis lookup_def map_of_SomeD image_eqI snd_conv)
  then have "is_int_at_most c v"
    using inv c by (auto simp: seq_inv_def list_all_iff)
  then show ?thesis
    using c by (auto simp: is_int_at_most_def split: jsval.splits number.splits)
qed

lemma seq_inv_unseen: "seq_inv s \<Longrightarrow> unseen s k = (lookup s k = None)"
  using seq_inv_lookup [of s k JNull] by (auto simp: unseen_def)

lemma seq_inv_int_record: "seq_inv s \<Longrightarrow> int_record s"
  by (cases "counter s")
     (auto simp: seq_inv_def int_record_def list_all_iff is_int_at_most_def is_int_def
           split: jsval.splits number.splits)

lemma int_record_lookup:
  "int_record s \<Longrightarrow> lookup s k = Some v \<Longrightarrow> \<exists>n. v = JNum (Num n)"
proof -
  assume r: "int_record s" and l: "lookup s k = Some v"
  have "v \<in> snd ` set (props (map_field s))"
    using l by (metis lookup_def map_of_SomeD image_eqI snd_conv)
  then have "is_int v"
    using r by (auto simp: int_record_def list_all_iff)
  then show ?thesis
    by (auto simp: is_int_def split: jsval.splits number.splits)
qed

lemma int_record_record_key: "int_record s \<Longrightarrow> int_record (record_key s k)"
proof -
  assume r: "int_record s"
  then obtain c where c: "counter s = Num c"
    by (cases "counter s") (auto simp: int_record_def)
  have "set (assoc_set (props (map_field s)) k (JNum (Num (add_one c))))
      \<subseteq> insert (k, JNum (Num (add_one c))) (set (props (map_field s)))"
    by (rule set_assoc_set)
  then show ?thesis
    using r c by (auto simp: int_record_def record_key_def Let_def list_all_iff is_int_def)
qed

text \<open>Recording a new key keeps the invariant while the counter is below \<open>2 ^ 53\<close>.\<close>

lemma seq_inv_record_key:
  assumes "seq_inv s" "unseen s k" "counter s = Num c" "- (2 ^ 53) \<le> c" "c < 2 ^ 53"
  shows "seq_inv (record_key s k)"
proof -
  let ?ps = "props (map_field s)"
  have c1: "plus_one (counter s) = Num (c + 1)"
    using assms(3-5) by (simp add: add_one_exact)
  have notin: "k \<notin> fst ` set ?ps"
    using assms(1,2) seq_inv_unseen [of s k] by (simp add: lookup_def map_of_eq_None_iff)
  have all: "list_all (is_int_at_most c) (map snd ?ps)" and dk: "distinct (map fst ?ps)"
    and dv: "distinct (map snd ?ps)" and el: "elems (map_field s) = None"
    using assms(1,3) by (auto simp: seq_inv_def)
  have new: "JNum (Num (c + 1)) \<notin> snd ` set ?ps"
    using all by (auto simp: list_all_iff is_int_at_most_def)
  have ps': "assoc_set ?ps k (JNum (Num (c + 1))) = ?ps @ [(k, JNum (Num (c + 1)))]"
    using notin by (rule assoc_set_fresh)
  have mono: "list_all (is_int_at_most (c + 1)) (map snd ?ps)"
    using all by (auto simp: list_all_iff is_int_at_most_def split: jsval.splits number.splits)
  show ?thesis
    using c1 el dk dv notin new mono
    by (simp add: seq_inv_def record_key_def Let_def ps' is_int_at_most_def)
qed

lemma assign_loop_Cons:
  "assign_loop P s t (it # its) =
     (let k = getItemId P it;
          s1 = (if unseen s k then record_key s k else s);
          t1 = (if unseen s k then True else t);
          r = assign_loop P s1 t1 its
      in (fst r, fst (snd r), it\<lparr>seq := lookup s1 k\<rparr> # snd (snd r)))"
  by (auto simp: Let_def split: prod.splits)

declare assign_loop.simps(2) [simp del]

lemma assign_loop_touched_True: "fst (snd (assign_loop P s True items)) = True"
  by (induction items arbitrary: s) (auto simp: assign_loop_Cons Let_def)

lemma assign_loop_touched:
  "fst (snd (assign_loop P s t items)) = (t \<or> (\<exists>it \<in> set items. unseen s (getItemId P it)))"
proof (induction items arbitrary: s t)
  case Nil
  then show ?case by simp
next
  case (Cons it its)
  show ?case
  proof (cases "unseen s (getItemId P it)")
    case True
    then show ?thesis
      using assign_loop_touched_True [of P "record_key s (getItemId P it)" its]
      by (auto simp: assign_loop_Cons Let_def)
  next
    case False
    then show ?thesis
      using Cons.IH [of s t] by (auto simp: assign_loop_Cons Let_def)
  qed
qed

lemma assign_loop_keeps:
  "lookup s k = Some v \<Longrightarrow> v \<noteq> JNull \<Longrightarrow> lookup (fst (assign_loop P s t items)) k = Some v"
proof (induction items arbitrary: s t)
  case Nil
  then show ?case by simp
next
  case (Cons it its)
  show ?case
  proof (cases "unseen s (getItemId P it)")
    case True
    then have "getItemId P it \<noteq> k"
      using Cons.prems by (auto simp: unseen_def)
    then have "lookup (record_key s (getItemId P it)) k = Some v"
      using Cons.prems by (simp add: lookup_record_key)
    then show ?thesis
      using Cons.IH [of "record_key s (getItemId P it)" True] Cons.prems(2) True
      by (auto simp: assign_loop_Cons Let_def)
  next
    case False
    then show ?thesis
      using Cons.IH [of s t] Cons.prems by (auto simp: assign_loop_Cons Let_def)
  qed
qed

lemma assign_loop_int_record: "int_record s \<Longrightarrow> int_record (fst (assign_loop P s t items))"
proof (induction items arbitrary: s t)
  case Nil
  then show ?case by simp
next
  case (Cons it its)
  show ?case
  proof (cases "unseen s (getItemId P it)")
    case True
    then show ?thesis
      using Cons.IH [of "record_key s (getItemId P it)" True] int_record_record_key [OF Cons.prems]
      by (auto simp: assign_loop_Cons Let_def)
  next
    case False
    then show ?thesis
      using Cons.IH [of s t] Cons.prems by (auto simp: assign_loop_Cons Let_def)
  qed
qed

lemma assign_loop_counter:
  "counter s = Num c \<Longrightarrow> \<exists>c'. counter (fst (assign_loop P s t items)) = Num c' \<and> c \<le> c'"
proof (induction items arbitrary: s t c)
  case Nil
  then show ?case by simp
next
  case (Cons it its)
  show ?case
  proof (cases "unseen s (getItemId P it)")
    case True
    have "counter (record_key s (getItemId P it)) = Num (add_one c)"
      using Cons.prems by (simp add: counter_record_key)
    from Cons.IH [OF this, of True] obtain c' where
      "counter (fst (assign_loop P (record_key s (getItemId P it)) True its)) = Num c'"
      "add_one c \<le> c'"
      by blast
    then show ?thesis
      using True add_one_ge [of c] by (auto simp: assign_loop_Cons Let_def)
  next
    case False
    then show ?thesis
      using Cons.IH [OF Cons.prems, of t] by (auto simp: assign_loop_Cons Let_def)
  qed
qed

text \<open>
  While the counter has room for one step per item below \<open>2 ^ 53\<close>, every step is exact:
  the counter grows by at most the number of items, and the invariant is kept.
\<close>

lemma assign_loop_counter_bound:
  "counter s = Num c \<Longrightarrow> - (2 ^ 53) \<le> c \<Longrightarrow> c + int (length items) \<le> 2 ^ 53 \<Longrightarrow>
   \<exists>c'. counter (fst (assign_loop P s t items)) = Num c' \<and> c \<le> c' \<and> c' \<le> c + int (length items)"
proof (induction items arbitrary: s t c)
  case Nil
  then show ?case by simp
next
  case (Cons it its)
  show ?case
  proof (cases "unseen s (getItemId P it)")
    case True
    have c1: "counter (record_key s (getItemId P it)) = Num (c + 1)"
      using Cons.prems by (simp add: counter_record_key add_one_exact)
    have "- (2 ^ 53) \<le> c + 1" "c + 1 + int (length its) \<le> 2 ^ 53"
      using Cons.prems(2,3) by simp_all
    from Cons.IH [OF c1 this, of True] obtain c' where
      "counter (fst (assign_loop P (record_key s (getItemId P it)) True its)) = Num c'"
      "c + 1 \<le> c'" "c' \<le> c + 1 + int (length its)"
      by blast
    then show ?thesis
      using True by (auto simp: assign_loop_Cons Let_def)
  next
    case False
    have "c + int (length its) \<le> 2 ^ 53"
      using Cons.prems(3) by simp
    from Cons.IH [OF Cons.prems(1,2) this, of t] obtain c' where
      "counter (fst (assign_loop P s t its)) = Num c'" "c \<le> c'" "c' \<le> c + int (length its)"
      by blast
    then show ?thesis
      using False by (auto simp: assign_loop_Cons Let_def)
  qed
qed

lemma assign_loop_inv:
  "seq_inv s \<Longrightarrow> counter s = Num c \<Longrightarrow> - (2 ^ 53) \<le> c \<Longrightarrow> c + int (length items) \<le> 2 ^ 53 \<Longrightarrow>
   seq_inv (fst (assign_loop P s t items))"
proof (induction items arbitrary: s t c)
  case Nil
  then show ?case by simp
next
  case (Cons it its)
  show ?case
  proof (cases "unseen s (getItemId P it)")
    case True
    have lt: "c < 2 ^ 53"
      using Cons.prems(4) by simp
    have inv1: "seq_inv (record_key s (getItemId P it))"
      using Cons.prems(1) True Cons.prems(2,3) lt by (rule seq_inv_record_key)
    have c1: "counter (record_key s (getItemId P it)) = Num (c + 1)"
      using Cons.prems(2,3) lt by (simp add: counter_record_key add_one_exact)
    have "- (2 ^ 53) \<le> c + 1" "c + 1 + int (length its) \<le> 2 ^ 53"
      using Cons.prems(3,4) by simp_all
    from Cons.IH [OF inv1 c1 this, of True] show ?thesis
      using True by (auto simp: assign_loop_Cons Let_def)
  next
    case False
    have "c + int (length its) \<le> 2 ^ 53"
      using Cons.prems(4) by simp
    from Cons.IH [OF Cons.prems(1-3) this, of t] show ?thesis
      using False by (auto simp: assign_loop_Cons Let_def)
  qed
qed

text \<open>After its step an item's key has a value that is not \<^verbatim>\<open>null\<close>.\<close>

lemma step_defined:
  "\<exists>v. lookup (if unseen s k then record_key s k else s) k = Some v \<and> v \<noteq> JNull"
  by (cases "lookup s k") (auto simp: unseen_def lookup_record_key)

lemma assign_loop_items:
  "snd (snd (assign_loop P s t items)) =
     map (\<lambda>it. it\<lparr>seq := lookup (fst (assign_loop P s t items)) (getItemId P it)\<rparr>) items"
proof (induction items arbitrary: s t)
  case Nil
  then show ?case by simp
next
  case (Cons it its)
  let ?k = "getItemId P it"
  let ?s1 = "if unseen s ?k then record_key s ?k else s"
  let ?t1 = "if unseen s ?k then True else t"
  obtain v where v: "lookup ?s1 ?k = Some v" "v \<noteq> JNull"
    using step_defined [of s ?k] by blast
  have kept: "lookup (fst (assign_loop P ?s1 ?t1 its)) ?k = Some v"
    using v by (rule assign_loop_keeps)
  have unfold: "assign_loop P s t (it # its) =
      (fst (assign_loop P ?s1 ?t1 its), fst (snd (assign_loop P ?s1 ?t1 its)),
       it\<lparr>seq := lookup ?s1 ?k\<rparr> # snd (snd (assign_loop P ?s1 ?t1 its)))"
    by (simp add: assign_loop_Cons Let_def)
  show ?case
    unfolding unfold using Cons.IH [of ?s1 ?t1] v(1) kept by simp
qed

lemma assign_loop_seen_after:
  "it \<in> set items \<Longrightarrow> \<not> unseen (fst (assign_loop P s t items)) (getItemId P it)"
proof (induction items arbitrary: s t)
  case Nil
  then show ?case by simp
next
  case (Cons x xs)
  let ?k = "getItemId P x"
  let ?s1 = "if unseen s ?k then record_key s ?k else s"
  let ?t1 = "if unseen s ?k then True else t"
  have unfold: "fst (assign_loop P s t (x # xs)) = fst (assign_loop P ?s1 ?t1 xs)"
    by (simp add: assign_loop_Cons Let_def)
  show ?case
  proof (cases "it = x")
    case True
    obtain v where v: "lookup ?s1 ?k = Some v" "v \<noteq> JNull"
      using step_defined [of s ?k] by blast
    have "lookup (fst (assign_loop P ?s1 ?t1 xs)) ?k = Some v"
      using v by (rule assign_loop_keeps)
    then show ?thesis
      unfolding unfold using True v(2) by (simp add: unseen_def)
  next
    case False
    then have "it \<in> set xs" using Cons.prems by simp
    then show ?thesis
      unfolding unfold by (rule Cons.IH)
  qed
qed

lemma assign_loop_all_seen:
  "(\<And>it. it \<in> set items \<Longrightarrow> \<not> unseen s (getItemId P it)) \<Longrightarrow>
   assign_loop P s t items = (s, t, map (\<lambda>it. it\<lparr>seq := lookup s (getItemId P it)\<rparr>) items)"
  by (induction items) (auto simp: assign_loop_Cons Let_def)

lemma int_record_json_value:
  "int_record s \<Longrightarrow> map (\<lambda>(k, v). (k, json_value v)) (props (map_field s)) = props (map_field s)"
proof -
  assume r: "int_record s"
  have "\<And>k v. (k, v) \<in> set (props (map_field s)) \<Longrightarrow> json_value v = v"
  proof -
    fix k v assume "(k, v) \<in> set (props (map_field s))"
    then have "is_int v"
      using r by (force simp: int_record_def list_all_iff)
    then show "json_value v = v"
      by (auto simp: is_int_def split: jsval.splits number.splits)
  qed
  then show ?thesis
    by (intro map_idI) auto
qed

text \<open>What was saved is what is loaded next, when the storage can be read and written.\<close>

lemma load_save_roundtrip:
  assumes "int_record s" "readable st" "writable st"
  shows "loadSeqState P (saveSeqState s st) = s"
proof -
  obtain c where c: "counter s = Num c"
    using assms(1) by (cases "counter s") (auto simp: int_record_def)
  have el: "elems (map_field s) = None"
    using assms(1) by (simp add: int_record_def)
  have "loadSeqState P (saveSeqState s st)
      = \<lparr>counter = Num c, map_field = \<lparr>elems = None, props = props (map_field s)\<rparr>\<rparr>"
    using assms(2,3) c el int_record_json_value [OF assms(1)]
    by (simp add: loadSeqState_def saveSeqState_def stringify_state_def)
  also have "\<dots> = s"
    using c el by simp
  finally show ?thesis .
qed

lemma assignStableSeq_unfold:
  "assignStableSeq P items st =
     (snd (snd (assign_loop P (loadSeqState P st) False items)),
      if fst (snd (assign_loop P (loadSeqState P st) False items))
      then saveSeqState (fst (assign_loop P (loadSeqState P st) False items)) st
      else st)"
  by (simp add: assignStableSeq_def split: prod.splits)

lemma readable_save [simp]: "readable (saveSeqState s st) = readable st"
  by (simp add: saveSeqState_def)

lemma writable_save [simp]: "writable (saveSeqState s st) = writable st"
  by (simp add: saveSeqState_def)

lemma flags_after_pass:
  "readable (snd (assignStableSeq P items st)) = readable st"
  "writable (snd (assignStableSeq P items st)) = writable st"
  by (simp_all add: assignStableSeq_unfold)

lemma load_unreadable: "\<not> readable st \<Longrightarrow> loadSeqState P st = fresh_state"
  by (simp add: loadSeqState_def)

lemma save_unwritable: "\<not> writable st \<Longrightarrow> saveSeqState s st = st"
  by (simp add: saveSeqState_def)

lemma seq_inv_fresh: "seq_inv fresh_state"
  by (simp add: seq_inv_def fresh_state_def)

lemma load_after_pass:
  assumes "int_record (loadSeqState P st)" "readable st" "writable st"
  shows "loadSeqState P (snd (assignStableSeq P items st))
     = fst (assign_loop P (loadSeqState P st) False items)"
proof (cases "fst (snd (assign_loop P (loadSeqState P st) False items))")
  case True
  have "int_record (fst (assign_loop P (loadSeqState P st) False items))"
    using assms(1) by (rule assign_loop_int_record)
  then show ?thesis
    using True assms(2,3) by (simp add: assignStableSeq_unfold load_save_roundtrip)
next
  case False
  then have "\<And>it. it \<in> set items \<Longrightarrow> \<not> unseen (loadSeqState P st) (getItemId P it)"
    by (simp add: assign_loop_touched)
  then have "assign_loop P (loadSeqState P st) False items
      = (loadSeqState P st, False,
         map (\<lambda>it. it\<lparr>seq := lookup (loadSeqState P st) (getItemId P it)\<rparr>) items)"
    by (rule assign_loop_all_seen)
  then show ?thesis
    by (simp add: assignStableSeq_unfold)
qed

text \<open>A second pass over the same items, from the storage the first pass left.\<close>

lemma second_pass:
  assumes rec: "int_record (loadSeqState P st)"
    and st1_def: "st1 = snd (assignStableSeq P items st)"
  shows "fst (assignStableSeq P items st1) = fst (assignStableSeq P items st)"
    and "loadSeqState P (snd (assignStableSeq P items st1)) = loadSeqState P st1"
proof -
  let ?s0 = "loadSeqState P st"
  let ?r = "assign_loop P ?s0 False items"
  let ?s1 = "fst ?r"
  have items1: "fst (assignStableSeq P items st)
      = map (\<lambda>it. it\<lparr>seq := lookup ?s1 (getItemId P it)\<rparr>) items"
    by (simp add: assignStableSeq_unfold assign_loop_items)
  consider (same) "st1 = st"
    | (saved) "readable st" "writable st"
    | (blind) "\<not> readable st" "st1 = saveSeqState ?s1 st"
    unfolding st1_def assignStableSeq_unfold
    by (cases "fst (snd ?r)"; cases "writable st"; cases "readable st")
       (auto simp: save_unwritable)
  then have "fst (assignStableSeq P items st1) = fst (assignStableSeq P items st) \<and>
      loadSeqState P (snd (assignStableSeq P items st1)) = loadSeqState P st1"
  proof cases
    case same
    then show ?thesis
      using st1_def by simp
  next
    case saved
    have l1: "loadSeqState P st1 = ?s1"
      unfolding st1_def using rec saved by (rule load_after_pass)
    have loop2: "assign_loop P ?s1 False items
        = (?s1, False, map (\<lambda>it. it\<lparr>seq := lookup ?s1 (getItemId P it)\<rparr>) items)"
      by (rule assign_loop_all_seen) (rule assign_loop_seen_after)
    show ?thesis
      using items1 by (simp add: assignStableSeq_unfold [of P items st1] l1 loop2)
  next
    case blind
    have r1: "\<not> readable st1"
      using blind by simp
    have "\<not> readable (snd (assignStableSeq P items st1))"
      using r1 by (simp add: assignStableSeq_unfold [of P items st1])
    then show ?thesis
      using r1 blind(1)
      by (simp add: load_unreadable assignStableSeq_unfold [of P items st1]
            assignStableSeq_unfold [of P items st])
  qed
  then show "fst (assignStableSeq P items st1) = fst (assignStableSeq P items st)"
    and "loadSeqState P (snd (assignStableSeq P items st1)) = loadSeqState P st1"
    by simp_all
qed

lemma seq_inv_after_pass:
  assumes "seq_inv (loadSeqState P st)" "counter (loadSeqState P st) = Num c"
    "- (2 ^ 53) \<le> c" "c + int (length items) \<le> 2 ^ 53"
  shows "seq_inv (loadSeqState P (snd (assignStableSeq P items st)))"
proof -
  let ?s1 = "fst (assign_loop P (loadSeqState P st) False items)"
  have inv1: "seq_inv ?s1"
    using assms by (rule assign_loop_inv)
  consider (same) "snd (assignStableSeq P items st) = st"
    | (saved) "readable st" "writable st"
    | (blind) "\<not> readable st" "snd (assignStableSeq P items st) = saveSeqState ?s1 st"
    unfolding assignStableSeq_unfold
    by (cases "fst (snd (assign_loop P (loadSeqState P st) False items))";
        cases "writable st"; cases "readable st")
       (auto simp: save_unwritable)
  then show ?thesis
  proof cases
    case same
    then show ?thesis using assms(1) by simp
  next
    case saved
    have "loadSeqState P (snd (assignStableSeq P items st)) = ?s1"
      using seq_inv_int_record [OF assms(1)] saved by (rule load_after_pass)
    then show ?thesis using inv1 by simp
  next
    case blind
    then show ?thesis
      by (simp add: load_unreadable seq_inv_fresh)
  qed
qed

text \<open>
  At the counter \<open>2 ^ 53\<close> the sum \<^verbatim>\<open>counter += 1\<close> gives \<open>2 ^ 53\<close> again: a pass from
  \<open>storage_at_limit\<close> over two new keys gives both the number \<open>2 ^ 53\<close>.
\<close>

lemma limit_load:
  "loadSeqState P storage_at_limit
     = \<lparr>counter = Num (2 ^ 53), map_field = \<lparr>elems = None, props = []\<rparr>\<rparr>"
  by (simp add: loadSeqState_def storage_at_limit_def)

lemma limit_inv: "seq_inv (loadSeqState P storage_at_limit)"
  unfolding limit_load by (simp add: seq_inv_def)

lemma example_ids:
  "getItemId example_platform (blank_item\<lparr>cluster_id := Some ''a''\<rparr>) = ''c:a''"
  "getItemId example_platform (blank_item\<lparr>cluster_id := Some ''b''\<rparr>) = ''c:b''"
  by (simp_all add: getItemId_def dedupeKey_def blank_item_def)

lemma limit_loop:
  "assign_loop example_platform
     \<lparr>counter = Num (2 ^ 53), map_field = \<lparr>elems = None, props = []\<rparr>\<rparr> False
     [blank_item\<lparr>cluster_id := Some ''a''\<rparr>, blank_item\<lparr>cluster_id := Some ''b''\<rparr>]
   = (\<lparr>counter = Num (2 ^ 53),
       map_field = \<lparr>elems = None,
         props = [(''c:a'', JNum (Num (2 ^ 53))), (''c:b'', JNum (Num (2 ^ 53)))]\<rparr>\<rparr>,
      True,
      [blank_item\<lparr>cluster_id := Some ''a'', seq := Some (JNum (Num (2 ^ 53)))\<rparr>,
       blank_item\<lparr>cluster_id := Some ''b'', seq := Some (JNum (Num (2 ^ 53)))\<rparr>])"
proof -
  define s0 :: seq_state where
    "s0 = \<lparr>counter = Num (2 ^ 53), map_field = \<lparr>elems = None, props = []\<rparr>\<rparr>"
  define s1 :: seq_state where
    "s1 = \<lparr>counter = Num (2 ^ 53),
           map_field = \<lparr>elems = None, props = [(''c:a'', JNum (Num (2 ^ 53)))]\<rparr>\<rparr>"
  define s2 :: seq_state where
    "s2 = \<lparr>counter = Num (2 ^ 53),
           map_field = \<lparr>elems = None,
             props = [(''c:a'', JNum (Num (2 ^ 53))), (''c:b'', JNum (Num (2 ^ 53)))]\<rparr>\<rparr>"
  have r1: "record_key s0 ''c:a'' = s1"
    by (simp add: record_key_def s0_def s1_def Let_def add_one_def)
  have r2: "record_key s1 ''c:b'' = s2"
    by (simp add: record_key_def s1_def s2_def Let_def add_one_def)
  have u: "unseen s0 ''c:a''" "unseen s1 ''c:b''"
    by (simp_all add: unseen_def lookup_def s0_def s1_def)
  have lk: "lookup s1 ''c:a'' = Some (JNum (Num (2 ^ 53)))"
    "lookup s2 ''c:b'' = Some (JNum (Num (2 ^ 53)))"
    by (simp_all add: lookup_def s1_def s2_def)
  have "assign_loop example_platform s0 False
      [blank_item\<lparr>cluster_id := Some ''a''\<rparr>, blank_item\<lparr>cluster_id := Some ''b''\<rparr>]
    = (s2, True,
       [blank_item\<lparr>cluster_id := Some ''a'', seq := Some (JNum (Num (2 ^ 53)))\<rparr>,
        blank_item\<lparr>cluster_id := Some ''b'', seq := Some (JNum (Num (2 ^ 53)))\<rparr>])"
    by (simp add: assign_loop_Cons example_ids u r1 r2 lk)
  then show ?thesis
    unfolding s0_def s2_def .
qed

text \<open>
  Against claim C4 as it is worded: the integers of the map do not stay distinct for every
  counter. The record of \<open>storage_at_limit\<close> satisfies the invariant; after a pass over
  two new keys both have the number \<open>2 ^ 53\<close>, and the invariant is lost.
\<close>

theorem assign_rounding_counterexample:
  "seq_inv (loadSeqState example_platform storage_at_limit) \<and>
   fst (assignStableSeq example_platform
      [blank_item\<lparr>cluster_id := Some ''a''\<rparr>, blank_item\<lparr>cluster_id := Some ''b''\<rparr>]
      storage_at_limit)
     = [blank_item\<lparr>cluster_id := Some ''a'', seq := Some (JNum (Num (2 ^ 53)))\<rparr>,
        blank_item\<lparr>cluster_id := Some ''b'', seq := Some (JNum (Num (2 ^ 53)))\<rparr>] \<and>
   \<not> seq_inv (fst (assign_loop example_platform
      (loadSeqState example_platform storage_at_limit) False
      [blank_item\<lparr>cluster_id := Some ''a''\<rparr>, blank_item\<lparr>cluster_id := Some ''b''\<rparr>]))"
proof -
  have B: "fst (assignStableSeq example_platform
      [blank_item\<lparr>cluster_id := Some ''a''\<rparr>, blank_item\<lparr>cluster_id := Some ''b''\<rparr>]
      storage_at_limit)
     = [blank_item\<lparr>cluster_id := Some ''a'', seq := Some (JNum (Num (2 ^ 53)))\<rparr>,
        blank_item\<lparr>cluster_id := Some ''b'', seq := Some (JNum (Num (2 ^ 53)))\<rparr>]"
    unfolding assignStableSeq_unfold limit_load limit_loop by simp
  have C: "\<not> seq_inv (fst (assign_loop example_platform
      (loadSeqState example_platform storage_at_limit) False
      [blank_item\<lparr>cluster_id := Some ''a''\<rparr>, blank_item\<lparr>cluster_id := Some ''b''\<rparr>]))"
    unfolding limit_load limit_loop by (simp add: seq_inv_def)
  show ?thesis
    using limit_inv B C by simp
qed

text \<open>
  Claim C4, as the code has it. A pass of the assignment loop leaves every stored
  assignment as it is, and the counter does not decrease. While the counter stays between
  \<open>- 2 ^ 53\<close> and \<open>2 ^ 53\<close>, where \<^verbatim>\<open>counter += 1\<close> is exact (it is enough that the counter
  has room for one step per item), the pass preserves the invariant of the sequence
  record: an integer counter, a plain map whose values are integers at most the counter,
  no integer under two keys. From a storage whose record satisfies the invariant, the
  cycle of loading, assigning the same items and saving can be repeated without any
  change: the second pass gives every item the number the first pass gave it, and leaves
  the stored record as the first pass left it.
\<close>

theorem assign_preserves_invariant:
  "(seq_inv s \<longrightarrow>
      (\<forall>k v. lookup s k = Some v \<longrightarrow> lookup (fst (assign_loop P s t items)) k = Some v) \<and>
      (\<exists>c c'. counter s = Num c \<and> counter (fst (assign_loop P s t items)) = Num c' \<and> c \<le> c')) \<and>
   (seq_inv s \<and> counter s = Num c \<and> - (2 ^ 53) \<le> c \<and> c + int (length items) \<le> 2 ^ 53 \<longrightarrow>
      seq_inv (fst (assign_loop P s t items))) \<and>
   (seq_inv (loadSeqState P st) \<longrightarrow>
      fst (assignStableSeq P items (snd (assignStableSeq P items st)))
        = fst (assignStableSeq P items st) \<and>
      loadSeqState P (snd (assignStableSeq P items (snd (assignStableSeq P items st))))
        = loadSeqState P (snd (assignStableSeq P items st))) \<and>
   (seq_inv (loadSeqState P st) \<and> counter (loadSeqState P st) = Num c \<and>
    - (2 ^ 53) \<le> c \<and> c + int (length items) \<le> 2 ^ 53 \<longrightarrow>
      seq_inv (loadSeqState P (snd (assignStableSeq P items st))))"
proof (intro conjI impI allI)
  fix k v
  assume inv: "seq_inv s" and l: "lookup s k = Some v"
  then have "v \<noteq> JNull"
    using seq_inv_lookup [OF inv l] by auto
  with l show "lookup (fst (assign_loop P s t items)) k = Some v"
    by (rule assign_loop_keeps)
next
  assume "seq_inv s"
  then obtain c where c: "counter s = Num c"
    by (cases "counter s") (auto simp: seq_inv_def)
  then show "\<exists>c c'. counter s = Num c \<and> counter (fst (assign_loop P s t items)) = Num c' \<and> c \<le> c'"
    using assign_loop_counter [OF c, of P t items] by auto
next
  assume "seq_inv s \<and> counter s = Num c \<and> - (2 ^ 53) \<le> c \<and> c + int (length items) \<le> 2 ^ 53"
  then show "seq_inv (fst (assign_loop P s t items))"
    using assign_loop_inv [of s c items P t] by blast
next
  assume "seq_inv (loadSeqState P st)"
  then have "int_record (loadSeqState P st)"
    by (rule seq_inv_int_record)
  then show "fst (assignStableSeq P items (snd (assignStableSeq P items st)))
        = fst (assignStableSeq P items st)"
    by (rule second_pass(1)) simp
next
  assume "seq_inv (loadSeqState P st)"
  then have "int_record (loadSeqState P st)"
    by (rule seq_inv_int_record)
  then show "loadSeqState P (snd (assignStableSeq P items (snd (assignStableSeq P items st))))
        = loadSeqState P (snd (assignStableSeq P items st))"
    by (rule second_pass(2)) simp
next
  assume "seq_inv (loadSeqState P st) \<and> counter (loadSeqState P st) = Num c \<and>
    - (2 ^ 53) \<le> c \<and> c + int (length items) \<le> 2 ^ 53"
  then show "seq_inv (loadSeqState P (snd (assignStableSeq P items st)))"
    using seq_inv_after_pass [of P st c items] by blast
qed

theorem assign_preserves_invariant_witness:
  "seq_inv (fst (assign_loop example_platform fresh_state False
      [blank_item\<lparr>cluster_id := Some ''a''\<rparr>, blank_item\<lparr>cluster_id := Some ''b''\<rparr>])) \<and>
   seq_inv (loadSeqState example_platform
      (snd (assignStableSeq example_platform
              [blank_item\<lparr>cluster_id := Some ''a''\<rparr>, blank_item\<lparr>cluster_id := Some ''b''\<rparr>]
              empty_storage))) \<and>
   fst (assignStableSeq example_platform
          [blank_item\<lparr>cluster_id := Some ''a''\<rparr>, blank_item\<lparr>cluster_id := Some ''b''\<rparr>]
          (snd (assignStableSeq example_platform
                  [blank_item\<lparr>cluster_id := Some ''a''\<rparr>, blank_item\<lparr>cluster_id := Some ''b''\<rparr>]
                  empty_storage)))
     = fst (assignStableSeq example_platform
          [blank_item\<lparr>cluster_id := Some ''a''\<rparr>, blank_item\<lparr>cluster_id := Some ''b''\<rparr>]
          empty_storage)"
proof -
  let ?items = "[blank_item\<lparr>cluster_id := Some ''a''\<rparr>, blank_item\<lparr>cluster_id := Some ''b''\<rparr>]"
  have l0: "loadSeqState example_platform empty_storage = fresh_state"
    by (simp add: loadSeqState_def empty_storage_def)
  have h1: "seq_inv fresh_state \<and> counter fresh_state = Num 0 \<and> - (2 ^ 53) \<le> (0::int) \<and>
      0 + int (length ?items) \<le> 2 ^ 53"
    using seq_inv_fresh by (simp add: fresh_state_def)
  have h2: "seq_inv (loadSeqState example_platform empty_storage) \<and>
      counter (loadSeqState example_platform empty_storage) = Num 0 \<and> - (2 ^ 53) \<le> (0::int) \<and>
      0 + int (length ?items) \<le> 2 ^ 53"
    using h1 by (simp add: l0)
  show ?thesis
    using assign_preserves_invariant [where P = example_platform and s = fresh_state
        and t = False and st = empty_storage and c = 0 and items = ?items]
      h1 h2
    by blast
qed

lemma stringify_int_record:
  "int_record s \<Longrightarrow>
   stringify_state s = JObj [(''counter'', JNum (counter s)), (''map'', JObj (props (map_field s)))]"
  by (cases "counter s") (auto simp: stringify_state_def int_record_def int_record_json_value)

text \<open>
  Claim C8. \<^verbatim>\<open>assignStableSeq\<close> writes the record back if and only if some item of the
  pass has a key without a stored assignment. When there is such a key and the storage
  accepts the write, the storage afterwards holds the text of the record that the loop
  produced (for a record that satisfied the invariant: its counter and its map, which the
  next load returns as they are), and one write has happened. When every key of the pass
  has a stored assignment, or the storage refuses the write, the storage is left as it
  was.
\<close>

theorem assign_writes_iff_new:
  "(writable st \<and> (\<exists>it \<in> set items. unseen (loadSeqState P st) (getItemId P it)) \<longrightarrow>
      snd (assignStableSeq P items st) =
        st\<lparr>content := Wellformed (stringify_state (fst (assign_loop P (loadSeqState P st) False items))),
           writes := Suc (writes st)\<rparr>) \<and>
   (writable st \<and> (\<exists>it \<in> set items. unseen (loadSeqState P st) (getItemId P it)) \<and>
    seq_inv (loadSeqState P st) \<longrightarrow>
      content (snd (assignStableSeq P items st)) =
        Wellformed (JObj
          [(''counter'', JNum (counter (fst (assign_loop P (loadSeqState P st) False items)))),
           (''map'', JObj (props (map_field (fst (assign_loop P (loadSeqState P st) False items)))))])) \<and>
   (readable st \<and> writable st \<and> seq_inv (loadSeqState P st) \<longrightarrow>
      loadSeqState P (snd (assignStableSeq P items st))
        = fst (assign_loop P (loadSeqState P st) False items)) \<and>
   (writable st \<longrightarrow>
      (writes (snd (assignStableSeq P items st)) = Suc (writes st))
        = (\<exists>it \<in> set items. unseen (loadSeqState P st) (getItemId P it)) \<and>
      (writes (snd (assignStableSeq P items st)) = writes st)
        = (\<forall>it \<in> set items. \<not> unseen (loadSeqState P st) (getItemId P it))) \<and>
   ((\<forall>it \<in> set items. \<not> unseen (loadSeqState P st) (getItemId P it)) \<longrightarrow>
      snd (assignStableSeq P items st) = st) \<and>
   (\<not> writable st \<longrightarrow> snd (assignStableSeq P items st) = st)"
proof (intro conjI impI)
  assume "writable st \<and> (\<exists>it \<in> set items. unseen (loadSeqState P st) (getItemId P it))"
  then show "snd (assignStableSeq P items st) =
        st\<lparr>content := Wellformed (stringify_state (fst (assign_loop P (loadSeqState P st) False items))),
           writes := Suc (writes st)\<rparr>"
    by (simp add: assignStableSeq_unfold assign_loop_touched saveSeqState_def)
next
  assume a: "writable st \<and> (\<exists>it \<in> set items. unseen (loadSeqState P st) (getItemId P it)) \<and>
    seq_inv (loadSeqState P st)"
  then have "int_record (fst (assign_loop P (loadSeqState P st) False items))"
    by (intro assign_loop_int_record seq_inv_int_record) simp
  then show "content (snd (assignStableSeq P items st)) =
        Wellformed (JObj
          [(''counter'', JNum (counter (fst (assign_loop P (loadSeqState P st) False items)))),
           (''map'', JObj (props (map_field (fst (assign_loop P (loadSeqState P st) False items)))))])"
    using a by (simp add: assignStableSeq_unfold assign_loop_touched saveSeqState_def
          stringify_int_record)
next
  assume "readable st \<and> writable st \<and> seq_inv (loadSeqState P st)"
  then show "loadSeqState P (snd (assignStableSeq P items st))
        = fst (assign_loop P (loadSeqState P st) False items)"
    using load_after_pass [of P st items] seq_inv_int_record by blast
next
  assume "writable st"
  then show "(writes (snd (assignStableSeq P items st)) = Suc (writes st))
        = (\<exists>it \<in> set items. unseen (loadSeqState P st) (getItemId P it))"
    by (auto simp: assignStableSeq_unfold assign_loop_touched saveSeqState_def)
next
  assume "writable st"
  then show "(writes (snd (assignStableSeq P items st)) = writes st)
        = (\<forall>it \<in> set items. \<not> unseen (loadSeqState P st) (getItemId P it))"
    by (auto simp: assignStableSeq_unfold assign_loop_touched saveSeqState_def)
next
  assume "\<forall>it \<in> set items. \<not> unseen (loadSeqState P st) (getItemId P it)"
  then show "snd (assignStableSeq P items st) = st"
    by (simp add: assignStableSeq_unfold assign_loop_touched)
next
  assume "\<not> writable st"
  then show "snd (assignStableSeq P items st) = st"
    by (simp add: assignStableSeq_unfold save_unwritable)
qed

theorem assign_writes_iff_new_witness:
  "snd (assignStableSeq example_platform [blank_item\<lparr>cluster_id := Some ''a''\<rparr>] empty_storage)
     = empty_storage\<lparr>content := Wellformed
         (JObj [(''counter'', JNum (Num 1)), (''map'', JObj [(''c:a'', JNum (Num 1))])]),
         writes := 1\<rparr> \<and>
   snd (assignStableSeq example_platform [blank_item\<lparr>cluster_id := Some ''a''\<rparr>]
      (empty_storage\<lparr>content := Wellformed
         (JObj [(''counter'', JNum (Num 1)), (''map'', JObj [(''c:a'', JNum (Num 1))])])\<rparr>))
     = empty_storage\<lparr>content := Wellformed
         (JObj [(''counter'', JNum (Num 1)), (''map'', JObj [(''c:a'', JNum (Num 1))])])\<rparr>"
proof -
  let ?P = example_platform
  let ?a = "blank_item\<lparr>cluster_id := Some ''a''\<rparr>"
  let ?st = "empty_storage\<lparr>content := Wellformed
         (JObj [(''counter'', JNum (Num 1)), (''map'', JObj [(''c:a'', JNum (Num 1))])])\<rparr>"
  define s1 :: seq_state where
    "s1 = \<lparr>counter = Num 1, map_field = \<lparr>elems = None, props = [(''c:a'', JNum (Num 1))]\<rparr>\<rparr>"
  have k: "getItemId ?P ?a = ''c:a''"
    by (simp add: getItemId_def dedupeKey_def blank_item_def)
  have l0: "loadSeqState ?P empty_storage = fresh_state"
    by (simp add: loadSeqState_def empty_storage_def)
  have u0: "unseen fresh_state ''c:a''"
    by (simp add: unseen_def lookup_def fresh_state_def)
  have r1: "record_key fresh_state ''c:a'' = s1"
    by (simp add: record_key_def fresh_state_def s1_def Let_def add_one_def)
  have loop: "fst (assign_loop ?P fresh_state False [?a]) = s1"
    by (simp add: assign_loop_Cons k u0 r1)
  have str: "stringify_state s1
      = JObj [(''counter'', JNum (Num 1)), (''map'', JObj [(''c:a'', JNum (Num 1))])]"
    by (simp add: stringify_state_def s1_def)
  have rw: "writable empty_storage"
    by (simp add: empty_storage_def)
  have new: "writable empty_storage \<and>
      (\<exists>it \<in> set [?a]. unseen (loadSeqState ?P empty_storage) (getItemId ?P it))"
    using u0 rw by (simp add: k l0)
  have old: "\<forall>it \<in> set [?a]. \<not> unseen (loadSeqState ?P ?st) (getItemId ?P it)"
    by (simp add: k unseen_def lookup_def loadSeqState_def empty_storage_def)
  have 1: "snd (assignStableSeq ?P [?a] empty_storage) =
      empty_storage\<lparr>content := Wellformed (stringify_state s1), writes := Suc (writes empty_storage)\<rparr>"
    using assign_writes_iff_new [where P = ?P and items = "[?a]" and st = empty_storage] new
    unfolding l0 loop by blast
  have 2: "snd (assignStableSeq ?P [?a] ?st) = ?st"
    using assign_writes_iff_new [where P = ?P and items = "[?a]" and st = ?st] old
    by blast
  show ?thesis
    using 1 2 by (simp add: str empty_storage_def)
qed

subsection \<open>First-seen numbers follow the order of the feed\<close>

lemma remdups_snoc: "remdups (zs @ [x]) = remdups (filter (\<lambda>y. y \<noteq> x) zs) @ [x]"
  by (induction zs) auto

lemma uniq_acc_remdups:
  "uniq_acc seen xs = rev (remdups (rev (filter (\<lambda>x. x \<notin> set seen) xs)))"
proof (induction xs arbitrary: seen)
  case Nil
  then show ?case by simp
next
  case (Cons x xs)
  show ?case
  proof (cases "x \<in> set seen")
    case True
    then show ?thesis using Cons.IH [of seen] by simp
  next
    case False
    have "filter (\<lambda>y. y \<notin> set (x # seen)) xs = filter (\<lambda>y. y \<noteq> x) (filter (\<lambda>y. y \<notin> set seen) xs)"
      by (induction xs) auto
    then have "uniq_acc (x # seen) xs
        = rev (remdups (filter (\<lambda>y. y \<noteq> x) (rev (filter (\<lambda>y. y \<notin> set seen) xs))))"
      using Cons.IH [of "x # seen"] by (simp add: rev_filter)
    then show ?thesis
      using False by (simp add: remdups_snoc)
  qed
qed

lemma uniq_remdups: "uniq xs = rev (remdups (rev xs))"
  by (simp add: uniq_def uniq_acc_remdups)

lemma length_uniq_acc: "length (uniq_acc seen xs) \<le> length xs"
  by (induction xs arbitrary: seen) (auto simp: le_SucI)

lemma length_dedupeItems: "length (dedupeItems P items) \<le> length items"
proof -
  have "length (dedupeItems P items) = length (map (dedupeKey P) (dedupeItems P items))"
    by simp
  also have "\<dots> \<le> length (map (dedupeKey P) items)"
    unfolding dedupeItems_keys uniq_def by (rule length_uniq_acc)
  finally show ?thesis by simp
qed

lemma assign_loop_new_numbers:
  "counter s = Num c \<Longrightarrow> - (2 ^ 53) \<le> c \<Longrightarrow> c + int (length items) \<le> 2 ^ 53 \<Longrightarrow>
   distinct (map (getItemId P) items) \<Longrightarrow>
   map (lookup (fst (assign_loop P s t items))) (filter (unseen s) (map (getItemId P) items))
     = map (\<lambda>i. Some (JNum (Num (c + 1 + int i))))
         [0 ..< length (filter (unseen s) (map (getItemId P) items))]"
proof (induction items arbitrary: s c t)
  case Nil
  then show ?case by simp
next
  case (Cons it its)
  let ?k = "getItemId P it"
  let ?ks = "map (getItemId P) its"
  have notin: "?k \<notin> set ?ks" and dist: "distinct ?ks"
    using Cons.prems(4) by auto
  show ?case
  proof (cases "unseen s ?k")
    case True
    let ?s1 = "record_key s ?k"
    let ?s' = "fst (assign_loop P ?s1 True its)"
    have lt: "c < 2 ^ 53"
      using Cons.prems(3) by simp
    have p1: "plus_one (counter s) = Num (c + 1)"
      using Cons.prems(1,2) lt by (simp add: add_one_exact)
    have c1: "counter ?s1 = Num (c + 1)"
      using p1 by (simp add: counter_record_key)
    have b1: "- (2 ^ 53) \<le> c + 1" "c + 1 + int (length its) \<le> 2 ^ 53"
      using Cons.prems(2,3) by simp_all
    have "lookup ?s1 ?k = Some (JNum (Num (c + 1)))"
      using p1 by (simp add: lookup_record_key)
    then have here: "lookup ?s' ?k = Some (JNum (Num (c + 1)))"
      by (rule assign_loop_keeps) simp
    have "\<And>k'. k' \<in> set ?ks \<Longrightarrow> unseen ?s1 k' = unseen s k'"
      using notin by (intro unseen_record_key) force
    then have same: "filter (unseen s) ?ks = filter (unseen ?s1) ?ks"
      by (intro filter_cong) auto
    have rest: "map (lookup ?s') (filter (unseen s) ?ks)
        = map (\<lambda>i. Some (JNum (Num (c + 1 + 1 + int i)))) [0 ..< length (filter (unseen s) ?ks)]"
      unfolding same using Cons.IH [OF c1 b1 dist, of True] by simp
    have "map (\<lambda>i. Some (JNum (Num (c + 1 + int i)))) [0 ..< Suc (length (filter (unseen s) ?ks))]
        = Some (JNum (Num (c + 1)))
          # map (\<lambda>i. Some (JNum (Num (c + 1 + 1 + int i)))) [0 ..< length (filter (unseen s) ?ks)]"
      by (simp add: map_upt_Suc add.assoc del: upt_Suc)
    then show ?thesis
      using True here rest by (simp add: assign_loop_Cons Let_def del: upt_Suc)
  next
    case False
    have "c + int (length its) \<le> 2 ^ 53"
      using Cons.prems(3) by simp
    from Cons.IH [OF Cons.prems(1,2) this dist, of t] show ?thesis
      using False by (simp add: assign_loop_Cons Let_def)
  qed
qed

lemma distinct_dedupeItems_ids: "distinct (map (getItemId P) (dedupeItems P items))"
proof -
  have "map (getItemId P) (dedupeItems P items) = map (dedupeKey P) (dedupeItems P items)"
    by (simp add: getItemId_def [abs_def])
  then show ?thesis
    by (simp add: dedupeItems_keys distinct_uniq)
qed

lemma assignStableSeq_new_numbers:
  assumes "counter (loadSeqState P st) = Num c" "- (2 ^ 53) \<le> c"
    "c + int (length items) \<le> 2 ^ 53" "distinct (map (getItemId P) items)"
  shows "map seq (filter (\<lambda>it. unseen (loadSeqState P st) (getItemId P it))
                   (fst (assignStableSeq P items st)))
     = map (\<lambda>i. Some (JNum (Num (c + 1 + int i))))
         [0 ..< length (filter (\<lambda>it. unseen (loadSeqState P st) (getItemId P it)) items)]"
proof -
  let ?s0 = "loadSeqState P st"
  let ?s' = "fst (assign_loop P ?s0 False items)"
  have "map seq (filter (\<lambda>it. unseen ?s0 (getItemId P it)) (fst (assignStableSeq P items st)))
      = map (lookup ?s') (filter (unseen ?s0) (map (getItemId P) items))"
    by (simp add: assignStableSeq_unfold assign_loop_items filter_map comp_def)
  also have "\<dots> = map (\<lambda>i. Some (JNum (Num (c + 1 + int i))))
         [0 ..< length (filter (unseen ?s0) (map (getItemId P) items))]"
    using assms by (rule assign_loop_new_numbers)
  finally show ?thesis
    by (simp add: filter_map comp_def)
qed

text \<open>The pass returns the items it was given, in their order, with only \<^verbatim>\<open>__seq\<close> set.\<close>

lemma assignStableSeq_same_items:
  "map (\<lambda>it. it\<lparr>seq := None\<rparr>) (fst (assignStableSeq P items st))
     = map (\<lambda>it. it\<lparr>seq := None\<rparr>) items"
  by (simp add: assignStableSeq_unfold assign_loop_items comp_def)

text \<open>
  Against claim C10 as it is worded: the new keys do not receive strictly increasing
  numbers for every counter. From \<open>storage_at_limit\<close> the two survivors, both new,
  receive \<open>2 ^ 53\<close> and \<open>2 ^ 53\<close>.
\<close>

theorem dedupe_then_assign_counterexample:
  "dedupeItems example_platform
      [blank_item\<lparr>cluster_id := Some ''a''\<rparr>, blank_item\<lparr>cluster_id := Some ''b''\<rparr>]
     = [blank_item\<lparr>cluster_id := Some ''a''\<rparr>, blank_item\<lparr>cluster_id := Some ''b''\<rparr>] \<and>
   unseen (loadSeqState example_platform storage_at_limit)
      (getItemId example_platform (blank_item\<lparr>cluster_id := Some ''a''\<rparr>)) \<and>
   unseen (loadSeqState example_platform storage_at_limit)
      (getItemId example_platform (blank_item\<lparr>cluster_id := Some ''b''\<rparr>)) \<and>
   map seq (fst (assignStableSeq example_platform
      (dedupeItems example_platform
         [blank_item\<lparr>cluster_id := Some ''a''\<rparr>, blank_item\<lparr>cluster_id := Some ''b''\<rparr>])
      storage_at_limit))
     = [Some (JNum (Num (2 ^ 53))), Some (JNum (Num (2 ^ 53)))]"
proof -
  have k: "dedupeKey example_platform (blank_item\<lparr>cluster_id := Some ''a''\<rparr>) = ''c:a''"
    "dedupeKey example_platform (blank_item\<lparr>cluster_id := Some ''b''\<rparr>) = ''c:b''"
    by (simp_all add: dedupeKey_def blank_item_def)
  have d: "dedupeItems example_platform
      [blank_item\<lparr>cluster_id := Some ''a''\<rparr>, blank_item\<lparr>cluster_id := Some ''b''\<rparr>]
     = [blank_item\<lparr>cluster_id := Some ''a''\<rparr>, blank_item\<lparr>cluster_id := Some ''b''\<rparr>]"
    by (simp add: dedupeItems_def k)
  have u: "unseen (loadSeqState example_platform storage_at_limit) ''c:a''"
    "unseen (loadSeqState example_platform storage_at_limit) ''c:b''"
    unfolding limit_load by (simp_all add: unseen_def lookup_def)
  have s: "map seq (fst (assignStableSeq example_platform
      [blank_item\<lparr>cluster_id := Some ''a''\<rparr>, blank_item\<lparr>cluster_id := Some ''b''\<rparr>]
      storage_at_limit))
     = [Some (JNum (Num (2 ^ 53))), Some (JNum (Num (2 ^ 53)))]"
    unfolding assignStableSeq_unfold limit_load limit_loop by simp
  show ?thesis
    unfolding d example_ids using d u s by simp
qed

text \<open>
  Claim C10, as the code has it. The keys of the output of \<^verbatim>\<open>dedupeItems\<close> are the keys of
  the input, each once, in the order of their first occurrence, and every survivor is an
  item of the input. \<^verbatim>\<open>assignStableSeq\<close> returns these survivors in the same order, with
  only their sequence number set; and while the counter stays between \<open>- 2 ^ 53\<close> and
  \<open>2 ^ 53\<close> (it is enough that it has room for one step per item of the feed), the
  survivors whose key has no stored assignment receive, in that order, the numbers
  \<open>c + 1\<close>, \<open>c + 2\<close>, and so on, where \<open>c\<close> is the counter that was loaded.
\<close>

theorem dedupe_then_assign_order:
  "map (dedupeKey P) (dedupeItems P items) = rev (remdups (rev (map (dedupeKey P) items))) \<and>
   distinct (map (dedupeKey P) (dedupeItems P items)) \<and>
   set (dedupeItems P items) \<subseteq> set items \<and>
   map (\<lambda>it. it\<lparr>seq := None\<rparr>) (fst (assignStableSeq P (dedupeItems P items) st))
     = map (\<lambda>it. it\<lparr>seq := None\<rparr>) (dedupeItems P items) \<and>
   map (getItemId P) (fst (assignStableSeq P (dedupeItems P items) st))
     = map (dedupeKey P) (dedupeItems P items) \<and>
   (counter (loadSeqState P st) = Num c \<and> - (2 ^ 53) \<le> c \<and> c + int (length items) \<le> 2 ^ 53 \<longrightarrow>
      map seq (filter (\<lambda>it. unseen (loadSeqState P st) (getItemId P it))
                 (fst (assignStableSeq P (dedupeItems P items) st)))
        = map (\<lambda>i. Some (JNum (Num (c + 1 + int i))))
            [0 ..< length (filter (\<lambda>it. unseen (loadSeqState P st) (getItemId P it))
                             (dedupeItems P items))])"
proof (intro conjI impI)
  show "map (dedupeKey P) (dedupeItems P items) = rev (remdups (rev (map (dedupeKey P) items)))"
    by (simp add: dedupeItems_keys uniq_remdups)
  show "distinct (map (dedupeKey P) (dedupeItems P items))"
    by (simp add: dedupeItems_keys distinct_uniq)
  show "set (dedupeItems P items) \<subseteq> set items"
    by (rule dedupeItems_subset)
  show "map (\<lambda>it. it\<lparr>seq := None\<rparr>) (fst (assignStableSeq P (dedupeItems P items) st))
     = map (\<lambda>it. it\<lparr>seq := None\<rparr>) (dedupeItems P items)"
    by (rule assignStableSeq_same_items)
  show "map (getItemId P) (fst (assignStableSeq P (dedupeItems P items) st))
     = map (dedupeKey P) (dedupeItems P items)"
    by (simp add: assignStableSeq_unfold assign_loop_items comp_def getItemId_def)
next
  assume a: "counter (loadSeqState P st) = Num c \<and> - (2 ^ 53) \<le> c \<and> c + int (length items) \<le> 2 ^ 53"
  then have "c + int (length (dedupeItems P items)) \<le> 2 ^ 53"
    using length_dedupeItems [of P items] by linarith
  then show "map seq (filter (\<lambda>it. unseen (loadSeqState P st) (getItemId P it))
                 (fst (assignStableSeq P (dedupeItems P items) st)))
        = map (\<lambda>i. Some (JNum (Num (c + 1 + int i))))
            [0 ..< length (filter (\<lambda>it. unseen (loadSeqState P st) (getItemId P it))
                             (dedupeItems P items))]"
    using a distinct_dedupeItems_ids [of P items]
    by (intro assignStableSeq_new_numbers) simp_all
qed

theorem dedupe_then_assign_order_witness:
  "map seq (filter (\<lambda>it. unseen (loadSeqState example_platform empty_storage)
                           (getItemId example_platform it))
       (fst (assignStableSeq example_platform
               (dedupeItems example_platform
                  [blank_item\<lparr>cluster_id := Some ''a''\<rparr>,
                   blank_item\<lparr>cluster_id := Some ''b''\<rparr>,
                   blank_item\<lparr>cluster_id := Some ''a'', paywall := True\<rparr>])
               empty_storage)))
   = [Some (JNum (Num 1)), Some (JNum (Num 2))]"
proof -
  let ?a = "blank_item\<lparr>cluster_id := Some ''a''\<rparr>"
  let ?b = "blank_item\<lparr>cluster_id := Some ''b''\<rparr>"
  let ?a2 = "blank_item\<lparr>cluster_id := Some ''a'', paywall := True\<rparr>"
  have agg: "\<not> isAggregator ?a" "\<not> isAggregator ?a2"
    by (simp_all add: isAggregator_def aggregator_signatures_def contains_lit_def indexOf_def
          startsWith_def lower_char_def blank_item_def)
  have t: "timeOf example_platform ?a = timeOf example_platform ?a2"
    by (simp add: timeOf_def published_arg_def blank_item_def)
  have ch: "chooseBetter example_platform ?a ?a2 = ?a"
    using agg t by (simp add: chooseBetter_def) (simp add: blank_item_def)
  have k: "dedupeKey example_platform ?a = ''c:a''" "dedupeKey example_platform ?b = ''c:b''"
    "dedupeKey example_platform ?a2 = ''c:a''"
    by (simp_all add: dedupeKey_def blank_item_def)
  have d: "dedupeItems example_platform [?a, ?b, ?a2] = [?a, ?b]"
    by (simp add: dedupeItems_def k ch)
  have s0: "loadSeqState example_platform empty_storage = fresh_state"
    by (simp add: loadSeqState_def empty_storage_def)
  have c0: "counter (loadSeqState example_platform empty_storage) = Num 0"
    by (simp add: s0 fresh_state_def)
  have new: "unseen fresh_state ''c:a''" "unseen fresh_state ''c:b''"
    by (simp_all add: unseen_def lookup_def fresh_state_def)
  have h: "counter (loadSeqState example_platform empty_storage) = Num 0 \<and>
      - (2 ^ 53) \<le> (0::int) \<and> 0 + int (length [?a, ?b, ?a2]) \<le> 2 ^ 53"
    using c0 by simp
  show ?thesis
    using dedupe_then_assign_order [where P = example_platform and st = empty_storage and c = 0
        and items = "[?a, ?b, ?a2]"] h
    by (simp add: d s0 getItemId_def k new)
qed

subsection \<open>Ordering engine\<close>

lemma positive_compare:
  "seq_num P a = Num m \<Longrightarrow> seq_num P b = Num n \<Longrightarrow>
   positive (compare_items P a b) = (m < n \<or> (m = n \<and> timeOf P a < timeOf P b))"
  by (auto simp: compare_items_def Let_def)

lemma not_positive_spec_order:
  "seq_num P a \<noteq> NaN \<Longrightarrow> seq_num P b \<noteq> NaN \<Longrightarrow>
   (\<not> positive (compare_items P a b)) = spec_order P a b"
  by (cases "seq_num P a"; cases "seq_num P b")
     (auto simp: positive_compare spec_order_def)

lemma spec_order_total:
  "seq_num P a \<noteq> NaN \<Longrightarrow> seq_num P b \<noteq> NaN \<Longrightarrow> \<not> spec_order P a b \<Longrightarrow> spec_order P b a"
  by (cases "seq_num P a"; cases "seq_num P b") (auto simp: spec_order_def)

lemma spec_order_trans:
  "spec_order P a b \<Longrightarrow> spec_order P b c \<Longrightarrow> spec_order P a c"
  by (cases "seq_num P a"; cases "seq_num P b"; cases "seq_num P c")
     (auto simp: spec_order_def)

lemma mset_insert_item: "mset (insert_item P x ys) = add_mset x (mset ys)"
  by (induction ys) auto

lemma mset_sort_items: "mset (sort_items P xs) = mset xs"
  by (induction xs) (auto simp: sort_items_def mset_insert_item)

lemma set_insert_item: "set (insert_item P x ys) = insert x (set ys)"
  using mset_insert_item [of P x ys] by (metis set_mset_add_mset_insert set_mset_mset)

lemma set_sort_items: "set (sort_items P xs) = set xs"
  using mset_sort_items [of P xs] by (metis set_mset_mset)

lemma sorted_insert_item:
  assumes "seq_num P x \<noteq> NaN" "\<And>y. y \<in> set ys \<Longrightarrow> seq_num P y \<noteq> NaN"
    and "sorted_wrt (spec_order P) ys"
  shows "sorted_wrt (spec_order P) (insert_item P x ys)"
  using assms(2,3)
proof (induction ys)
  case Nil
  then show ?case by simp
next
  case (Cons y ys)
  have ny: "seq_num P y \<noteq> NaN"
    using Cons.prems(1) by simp
  show ?case
  proof (cases "positive (compare_items P x y)")
    case True
    then have yx: "spec_order P y x"
      using not_positive_spec_order [OF assms(1) ny] spec_order_total [OF assms(1) ny] by blast
    have "sorted_wrt (spec_order P) (insert_item P x ys)"
      using Cons by simp
    then show ?thesis
      using True yx Cons.prems(2) by (auto simp: set_insert_item)
  next
    case False
    then have xy: "spec_order P x y"
      using not_positive_spec_order [OF assms(1) ny] by blast
    then have "\<And>z. z \<in> set ys \<Longrightarrow> spec_order P x z"
      using Cons.prems(2) spec_order_trans [of P x y] by auto
    then show ?thesis
      using False xy Cons.prems(2) by auto
  qed
qed

lemma sorted_sort_items:
  "(\<And>x. x \<in> set xs \<Longrightarrow> seq_num P x \<noteq> NaN) \<Longrightarrow> sorted_wrt (spec_order P) (sort_items P xs)"
proof (induction xs)
  case Nil
  then show ?case by (simp add: sort_items_def)
next
  case (Cons x xs)
  have "sorted_wrt (spec_order P) (insert_item P x (sort_items P xs))"
    using Cons by (intro sorted_insert_item) (auto simp: set_sort_items)
  then show ?case
    by (simp add: sort_items_def)
qed

lemma normalize_unfold:
  "normalize P (Some items) st =
     (sort_items P (fst (assignStableSeq P (dedupeItems P items) st)),
      snd (assignStableSeq P (dedupeItems P items) st))"
  by (simp add: normalize_def split: prod.splits)

lemma seq_num_int: "seq it = Some (JNum (Num n)) \<Longrightarrow> seq_num P it = Num n"
  by (simp add: seq_num_def)

text \<open>What an item carries after the pass, when the stored record holds integers.\<close>

lemma assigned_item:
  assumes "int_record (loadSeqState P st)" "z \<in> set (fst (assignStableSeq P items st))"
  shows "\<exists>z0 n. z0 \<in> set items \<and> z = z0\<lparr>seq := Some (JNum (Num n))\<rparr> \<and>
      lookup (fst (assign_loop P (loadSeqState P st) False items)) (getItemId P z0)
        = Some (JNum (Num n))"
proof -
  let ?s' = "fst (assign_loop P (loadSeqState P st) False items)"
  have rec': "int_record ?s'"
    using assms(1) by (rule assign_loop_int_record)
  obtain z0 where z0: "z0 \<in> set items" "z = z0\<lparr>seq := lookup ?s' (getItemId P z0)\<rparr>"
    using assms(2) by (auto simp: assignStableSeq_unfold assign_loop_items)
  have "\<not> unseen ?s' (getItemId P z0)"
    using z0(1) by (rule assign_loop_seen_after)
  then obtain v where v: "lookup ?s' (getItemId P z0) = Some v"
    by (auto simp: unseen_def)
  from int_record_lookup [OF rec' v] obtain n where "v = JNum (Num n)"
    by blast
  then show ?thesis
    using z0 v by auto
qed

lemma assigned_numeric:
  "seq_inv (loadSeqState P st) \<Longrightarrow> z \<in> set (fst (assignStableSeq P items st)) \<Longrightarrow>
   seq_num P z \<noteq> NaN"
  using assigned_item [OF seq_inv_int_record, of P st z items] by (auto simp: seq_num_int)

text \<open>
  Against claim C5 as it is worded: an item whose time stamp does not parse is not the
  lowest among the items of its sequence number. It counts as epoch \<open>0\<close>, and an item
  dated before 1970 has a negative time and comes after it. (Two keys share the number
  \<open>1\<close> in the stored map of the example.)
\<close>

theorem normalize_unparsable_counterexample:
  "Date_parse example_platform ''not a date'' = None \<and>
   Date_parse example_platform ''1969-12-31T00:00:00Z'' = Some (- 86400000) \<and>
   fst (normalize example_platform
          (Some [blank_item\<lparr>cluster_id := Some ''a'', published_utc := Some ''1969-12-31T00:00:00Z''\<rparr>,
                 blank_item\<lparr>cluster_id := Some ''b'', published_utc := Some ''not a date''\<rparr>])
          (empty_storage\<lparr>content := Wellformed
             (JObj [(''counter'', JNum (Num 1)),
                    (''map'', JObj [(''c:a'', JNum (Num 1)), (''c:b'', JNum (Num 1))])])\<rparr>))
   = [blank_item\<lparr>cluster_id := Some ''b'', published_utc := Some ''not a date'',
                  seq := Some (JNum (Num 1))\<rparr>,
      blank_item\<lparr>cluster_id := Some ''a'', published_utc := Some ''1969-12-31T00:00:00Z'',
                  seq := Some (JNum (Num 1))\<rparr>]"
proof -
  let ?old = "blank_item\<lparr>cluster_id := Some ''a'', published_utc := Some ''1969-12-31T00:00:00Z''\<rparr>"
  let ?bad = "blank_item\<lparr>cluster_id := Some ''b'', published_utc := Some ''not a date''\<rparr>"
  let ?st = "empty_storage\<lparr>content := Wellformed
             (JObj [(''counter'', JNum (Num 1)),
                    (''map'', JObj [(''c:a'', JNum (Num 1)), (''c:b'', JNum (Num 1))])])\<rparr>"
  let ?old1 = "?old\<lparr>seq := Some (JNum (Num 1))\<rparr>"
  let ?bad1 = "?bad\<lparr>seq := Some (JNum (Num 1))\<rparr>"
  have k: "dedupeKey example_platform ?old = ''c:a''" "dedupeKey example_platform ?bad = ''c:b''"
    by (simp_all add: dedupeKey_def blank_item_def)
  have d: "dedupeItems example_platform [?old, ?bad] = [?old, ?bad]"
    by (simp add: dedupeItems_def k)
  define s :: seq_state where
    "s = \<lparr>counter = Num 1,
          map_field = \<lparr>elems = None, props = [(''c:a'', JNum (Num 1)), (''c:b'', JNum (Num 1))]\<rparr>\<rparr>"
  have l: "loadSeqState example_platform ?st = s"
    by (simp add: loadSeqState_def empty_storage_def s_def)
  have la: "lookup s ''c:a'' = Some (JNum (Num 1))" and lb: "lookup s ''c:b'' = Some (JNum (Num 1))"
    by (simp_all add: lookup_def s_def)
  have ids: "getItemId example_platform ?old = ''c:a''" "getItemId example_platform ?bad = ''c:b''"
    by (simp_all add: getItemId_def k)
  have "assign_loop example_platform s False [?old, ?bad]
      = (s, False, map (\<lambda>it. it\<lparr>seq := lookup s (getItemId example_platform it)\<rparr>) [?old, ?bad])"
    by (rule assign_loop_all_seen) (auto simp: ids unseen_def la lb)
  then have a: "fst (assignStableSeq example_platform [?old, ?bad] ?st) = [?old1, ?bad1]"
    by (simp add: assignStableSeq_unfold l ids la lb)
  have p: "Date_parse example_platform ''not a date'' = None"
    "Date_parse example_platform ''1969-12-31T00:00:00Z'' = Some (- 86400000)"
    by (simp_all add: example_platform_def Date_examples_def)
  have t: "timeOf example_platform ?old1 = - 86400000" "timeOf example_platform ?bad1 = 0"
    by (simp_all add: timeOf_def published_arg_def p blank_item_def)
  have s: "seq_num example_platform ?old1 = Num 1" "seq_num example_platform ?bad1 = Num 1"
    by (simp_all add: seq_num_def)
  have "positive (compare_items example_platform ?old1 ?bad1)"
    by (simp add: positive_compare [OF s] t)
  then have "sort_items example_platform [?old1, ?bad1] = [?bad1, ?old1]"
    by (simp add: sort_items_def)
  then show ?thesis
    using p by (simp add: normalize_unfold d a)
qed

text \<open>
  Claim C5, as the code has it. \<^verbatim>\<open>normalize\<close> returns the de-duplicated items, with
  their sequence numbers, sorted: the sort keeps the items and, when every sequence number
  converts to a number (as it does when the stored record satisfies its invariant), puts
  the larger sequence number first and, on equal numbers, the later time first. The time
  is the one the conflict resolver uses; a time stamp that does not parse counts as epoch
  \<open>0\<close>.
\<close>

theorem normalize_sorted:
  "fst (normalize P (Some items) st)
     = sort_items P (fst (assignStableSeq P (dedupeItems P items) st)) \<and>
   mset (sort_items P xs) = mset xs \<and>
   (list_all (\<lambda>x. seq_num P x \<noteq> NaN) xs \<longrightarrow> sorted_wrt (spec_order P) (sort_items P xs)) \<and>
   (seq_inv (loadSeqState P st) \<longrightarrow> sorted_wrt (spec_order P) (fst (normalize P (Some items) st))) \<and>
   (Date_parse P (published_arg it) = None \<longrightarrow> timeOf P it = 0)"
proof (intro conjI impI)
  show "fst (normalize P (Some items) st)
     = sort_items P (fst (assignStableSeq P (dedupeItems P items) st))"
    by (simp add: normalize_unfold)
  show "mset (sort_items P xs) = mset xs"
    by (rule mset_sort_items)
next
  assume "list_all (\<lambda>x. seq_num P x \<noteq> NaN) xs"
  then show "sorted_wrt (spec_order P) (sort_items P xs)"
    by (intro sorted_sort_items) (simp add: list_all_iff)
next
  assume "seq_inv (loadSeqState P st)"
  then show "sorted_wrt (spec_order P) (fst (normalize P (Some items) st))"
    unfolding normalize_unfold fst_conv
    by (intro sorted_sort_items) (rule assigned_numeric)
next
  assume "Date_parse P (published_arg it) = None"
  then show "timeOf P it = 0"
    by (simp add: timeOf_def)
qed

theorem normalize_sorted_witness:
  "sorted_wrt (spec_order example_platform)
     (fst (normalize example_platform
        (Some [blank_item\<lparr>cluster_id := Some ''a'', published_utc := Some ''2024-01-01T00:00:00Z''\<rparr>,
               blank_item\<lparr>cluster_id := Some ''b'', published_utc := Some ''2024-01-01T00:05:00Z''\<rparr>])
        empty_storage)) \<and>
   timeOf example_platform (blank_item\<lparr>published_utc := Some ''not a date''\<rparr>) = 0 \<and>
   sorted_wrt (spec_order example_platform)
     (sort_items example_platform
        [blank_item\<lparr>seq := Some (JNum (Num 1))\<rparr>, blank_item\<lparr>seq := Some (JNum (Num 2))\<rparr>])"
proof -
  have h1: "seq_inv (loadSeqState example_platform empty_storage)"
    by (simp add: loadSeqState_def empty_storage_def seq_inv_def fresh_state_def)
  have h2: "Date_parse example_platform
      (published_arg (blank_item\<lparr>published_utc := Some ''not a date''\<rparr>)) = None"
    by (simp add: published_arg_def blank_item_def example_platform_def Date_examples_def)
  have h3: "list_all (\<lambda>x. seq_num example_platform x \<noteq> NaN)
      [blank_item\<lparr>seq := Some (JNum (Num 1))\<rparr>, blank_item\<lparr>seq := Some (JNum (Num 2))\<rparr>]"
    by (simp add: seq_num_def)
  show ?thesis
    using normalize_sorted [where P = example_platform and st = empty_storage
        and items = "[blank_item\<lparr>cluster_id := Some ''a'', published_utc := Some ''2024-01-01T00:00:00Z''\<rparr>,
               blank_item\<lparr>cluster_id := Some ''b'', published_utc := Some ''2024-01-01T00:05:00Z''\<rparr>]"
        and it = "blank_item\<lparr>published_utc := Some ''not a date''\<rparr>"
        and xs = "[blank_item\<lparr>seq := Some (JNum (Num 1))\<rparr>, blank_item\<lparr>seq := Some (JNum (Num 2))\<rparr>]"]
      h1 h2 h3
    by blast
qed

subsection \<open>New items rise above known ones\<close>

lemma assign_loop_new_greater:
  "counter s = Num c \<Longrightarrow> - (2 ^ 53) \<le> c \<Longrightarrow> c + int (length items) \<le> 2 ^ 53 \<Longrightarrow>
   it \<in> set items \<Longrightarrow> unseen s (getItemId P it) \<Longrightarrow>
   \<exists>m. lookup (fst (assign_loop P s t items)) (getItemId P it) = Some (JNum (Num m)) \<and> c < m"
proof (induction items arbitrary: s c t)
  case Nil
  then show ?case by simp
next
  case (Cons x xs)
  let ?k = "getItemId P x"
  have lt: "c < 2 ^ 53"
    using Cons.prems(3) by simp
  have p1: "plus_one (counter s) = Num (c + 1)"
    using Cons.prems(1,2) lt by (simp add: add_one_exact)
  show ?case
  proof (cases "?k = getItemId P it")
    case True
    then have u: "unseen s ?k"
      using Cons.prems(5) by simp
    have "lookup (record_key s ?k) ?k = Some (JNum (Num (c + 1)))"
      using p1 by (simp add: lookup_record_key)
    then have "lookup (fst (assign_loop P (record_key s ?k) True xs)) ?k = Some (JNum (Num (c + 1)))"
      by (rule assign_loop_keeps) simp
    then show ?thesis
      using u True by (auto simp: assign_loop_Cons Let_def)
  next
    case False
    then have mem: "it \<in> set xs"
      using Cons.prems(4) by auto
    show ?thesis
    proof (cases "unseen s ?k")
      case True
      have c1: "counter (record_key s ?k) = Num (c + 1)"
        using p1 by (simp add: counter_record_key)
      have b1: "- (2 ^ 53) \<le> c + 1" "c + 1 + int (length xs) \<le> 2 ^ 53"
        using Cons.prems(2,3) by simp_all
      have u1: "unseen (record_key s ?k) (getItemId P it)"
        using False Cons.prems(5) by (simp add: unseen_record_key)
      from Cons.IH [OF c1 b1 mem u1, of True] obtain m where
        "lookup (fst (assign_loop P (record_key s ?k) True xs)) (getItemId P it) = Some (JNum (Num m))"
        "c + 1 < m"
        by blast
      then show ?thesis
        using True by (auto simp: assign_loop_Cons Let_def)
    next
      case u: False
      have "c + int (length xs) \<le> 2 ^ 53"
        using Cons.prems(3) by simp
      from Cons.IH [OF Cons.prems(1,2) this mem Cons.prems(5), of t] show ?thesis
        using u by (auto simp: assign_loop_Cons Let_def)
    qed
  qed
qed

text \<open>
  Against claim C6 as it is worded: a key that is new in the second cycle does not always
  receive a greater number. From \<open>storage_at_limit\<close> the first cycle gives the item
  \<open>a\<close> the number \<open>2 ^ 53\<close>; in the second cycle the new item \<open>b\<close> receives \<open>2 ^ 53\<close>
  too, and stands behind \<open>a\<close> in the output.
\<close>

theorem new_keys_rounding_counterexample:
  "seq_inv (loadSeqState example_platform storage_at_limit) \<and>
   readable storage_at_limit \<and> writable storage_at_limit \<and>
   fst (normalize example_platform (Some [blank_item\<lparr>cluster_id := Some ''a''\<rparr>]) storage_at_limit)
     = [blank_item\<lparr>cluster_id := Some ''a'', seq := Some (JNum (Num (2 ^ 53)))\<rparr>] \<and>
   unseen (loadSeqState example_platform
        (snd (normalize example_platform (Some [blank_item\<lparr>cluster_id := Some ''a''\<rparr>])
                storage_at_limit)))
      (getItemId example_platform (blank_item\<lparr>cluster_id := Some ''b''\<rparr>)) \<and>
   fst (normalize example_platform
          (Some [blank_item\<lparr>cluster_id := Some ''a''\<rparr>, blank_item\<lparr>cluster_id := Some ''b''\<rparr>])
          (snd (normalize example_platform (Some [blank_item\<lparr>cluster_id := Some ''a''\<rparr>])
                  storage_at_limit)))
     = [blank_item\<lparr>cluster_id := Some ''a'', seq := Some (JNum (Num (2 ^ 53)))\<rparr>,
        blank_item\<lparr>cluster_id := Some ''b'', seq := Some (JNum (Num (2 ^ 53)))\<rparr>]"
proof -
  let ?P = example_platform
  let ?a = "blank_item\<lparr>cluster_id := Some ''a''\<rparr>"
  let ?b = "blank_item\<lparr>cluster_id := Some ''b''\<rparr>"
  let ?a1 = "blank_item\<lparr>cluster_id := Some ''a'', seq := Some (JNum (Num (2 ^ 53)))\<rparr>"
  let ?b1 = "blank_item\<lparr>cluster_id := Some ''b'', seq := Some (JNum (Num (2 ^ 53)))\<rparr>"
  define s0 :: seq_state where
    "s0 = \<lparr>counter = Num (2 ^ 53), map_field = \<lparr>elems = None, props = []\<rparr>\<rparr>"
  define s1 :: seq_state where
    "s1 = \<lparr>counter = Num (2 ^ 53),
           map_field = \<lparr>elems = None, props = [(''c:a'', JNum (Num (2 ^ 53)))]\<rparr>\<rparr>"
  define s2 :: seq_state where
    "s2 = \<lparr>counter = Num (2 ^ 53),
           map_field = \<lparr>elems = None,
             props = [(''c:a'', JNum (Num (2 ^ 53))), (''c:b'', JNum (Num (2 ^ 53)))]\<rparr>\<rparr>"
  define st1 where "st1 = saveSeqState s1 storage_at_limit"
  have l0: "loadSeqState ?P storage_at_limit = s0"
    unfolding s0_def by (rule limit_load)
  have rw: "readable storage_at_limit" "writable storage_at_limit"
    by (simp_all add: storage_at_limit_def)
  have k: "dedupeKey ?P ?a = ''c:a''" "dedupeKey ?P ?b = ''c:b''"
    by (simp_all add: dedupeKey_def blank_item_def)
  have d1: "dedupeItems ?P [?a] = [?a]" and d2: "dedupeItems ?P [?a, ?b] = [?a, ?b]"
    by (simp_all add: dedupeItems_def k)
  have r1: "record_key s0 ''c:a'' = s1"
    by (simp add: record_key_def s0_def s1_def Let_def add_one_def)
  have r2: "record_key s1 ''c:b'' = s2"
    by (simp add: record_key_def s1_def s2_def Let_def add_one_def)
  have u: "unseen s0 ''c:a''" "unseen s1 ''c:b''" "\<not> unseen s1 ''c:a''" "\<not> unseen s2 ''c:a''"
    by (simp_all add: unseen_def lookup_def s0_def s1_def s2_def)
  have lk: "lookup s1 ''c:a'' = Some (JNum (Num (2 ^ 53)))"
    "lookup s2 ''c:b'' = Some (JNum (Num (2 ^ 53)))"
    by (simp_all add: lookup_def s1_def s2_def)
  have loop1: "assign_loop ?P s0 False [?a] = (s1, True, [?a1])"
    by (simp add: assign_loop_Cons example_ids u r1 lk)
  have n1: "normalize ?P (Some [?a]) storage_at_limit = ([?a1], st1)"
    unfolding normalize_unfold d1 assignStableSeq_unfold l0 loop1 st1_def
    by (simp add: sort_items_def)
  have rec1: "int_record s1"
    by (simp add: int_record_def s1_def is_int_def)
  have l1: "loadSeqState ?P st1 = s1"
    unfolding st1_def using rec1 rw by (rule load_save_roundtrip)
  have loop2: "snd (snd (assign_loop ?P s1 False [?a, ?b])) = [?a1, ?b1]"
    by (simp add: assign_loop_Cons example_ids u r2 lk)
  have sn: "seq_num ?P ?a1 = Num (2 ^ 53)" "seq_num ?P ?b1 = Num (2 ^ 53)"
    by (simp_all add: seq_num_def)
  have tm: "timeOf ?P ?a1 = timeOf ?P ?b1"
    by (simp add: timeOf_def published_arg_def blank_item_def)
  have "positive (compare_items ?P ?a1 ?b1)
      = (2 ^ 53 < (2 ^ 53 :: int) \<or> (2 ^ 53 = (2 ^ 53 :: int) \<and> timeOf ?P ?a1 < timeOf ?P ?b1))"
    using sn by (rule positive_compare)
  then have "\<not> positive (compare_items ?P ?a1 ?b1)"
    using tm by simp
  then have sort2: "sort_items ?P [?a1, ?b1] = [?a1, ?b1]"
    by (simp add: sort_items_def)
  have out2: "fst (normalize ?P (Some [?a, ?b]) st1) = [?a1, ?b1]"
    unfolding normalize_unfold d2 assignStableSeq_unfold l1 fst_conv loop2
    by (rule sort2)
  have new: "unseen (loadSeqState ?P st1) (getItemId ?P ?b)"
    unfolding l1 example_ids by (rule u(2))
  show ?thesis
    using limit_inv [of ?P] rw out2 new by (simp add: n1)
qed

text \<open>
  Claim C6, as the code has it. Take two successive cycles of \<^verbatim>\<open>normalize\<close> over one
  storage that can be read and written, whose record satisfies the invariant and whose
  counter stays between \<open>- 2 ^ 53\<close> and \<open>2 ^ 53\<close> (it is enough that it has room for one
  step per item of the two feeds). An item of the second output whose key had no stored
  assignment after the first cycle carries a sequence number that is strictly greater than
  the number of every item of the first output, and of every item of the second output
  whose key was in the first output; and in the second output it stands before every such
  item.
\<close>

theorem new_keys_rank_first:
  assumes "seq_inv (loadSeqState P st0)" "readable st0" "writable st0"
    and "counter (loadSeqState P st0) = Num c" "- (2 ^ 53) \<le> c"
    and "c + int (length items1) + int (length items2) \<le> 2 ^ 53"
    and "normalize P (Some items1) st0 = (out1, st1)"
    and "normalize P (Some items2) st1 = (out2, st2)"
    and "x \<in> set out2" "unseen (loadSeqState P st1) (getItemId P x)"
    and "y \<in> set out1 \<or> (y \<in> set out2 \<and> getItemId P y \<in> getItemId P ` set out1)"
  shows "(\<exists>m n. seq x = Some (JNum (Num m)) \<and> seq y = Some (JNum (Num n)) \<and> n < m) \<and>
    (\<forall>i j. i < length out2 \<and> j < length out2 \<and> out2 ! i = x \<and> out2 ! j = y \<longrightarrow> i < j)"
proof -
  let ?s0 = "loadSeqState P st0"
  let ?d1 = "dedupeItems P items1"
  let ?d2 = "dedupeItems P items2"
  let ?a1 = "fst (assignStableSeq P ?d1 st0)"
  let ?a2 = "fst (assignStableSeq P ?d2 st1)"
  let ?s1 = "fst (assign_loop P ?s0 False ?d1)"
  let ?s2 = "fst (assign_loop P ?s1 False ?d2)"
  have len1: "int (length ?d1) \<le> int (length items1)" and len2: "int (length ?d2) \<le> int (length items2)"
    using length_dedupeItems [of P items1] length_dedupeItems [of P items2] by simp_all
  have b1: "c + int (length ?d1) \<le> 2 ^ 53"
    using assms(6) len1 by linarith
  have st1: "st1 = snd (assignStableSeq P ?d1 st0)" and out1: "out1 = sort_items P ?a1"
    using assms(7) by (simp_all add: normalize_unfold)
  have out2: "out2 = sort_items P ?a2"
    using assms(8) by (simp add: normalize_unfold)
  have rec0: "int_record ?s0"
    using assms(1) by (rule seq_inv_int_record)
  have l1: "loadSeqState P st1 = ?s1"
    unfolding st1 using rec0 assms(2,3) by (rule load_after_pass)
  have inv1: "seq_inv ?s1"
    using assms(1,4,5) b1 by (rule assign_loop_inv)
  have inv_st1: "seq_inv (loadSeqState P st1)"
    using inv1 l1 by simp
  have rec_st1: "int_record (loadSeqState P st1)"
    using inv_st1 by (rule seq_inv_int_record)
  obtain c1 where c1: "counter ?s1 = Num c1" "c \<le> c1" "c1 \<le> c + int (length ?d1)"
    using assign_loop_counter_bound [OF assms(4,5) b1, of P False] by blast
  have b2: "- (2 ^ 53) \<le> c1" "c1 + int (length ?d2) \<le> 2 ^ 53"
    using c1(2,3) assms(5,6) len1 len2 by linarith+
  have "x \<in> set ?a2"
    using assms(9) by (simp add: out2 set_sort_items)
  from assigned_item [OF rec_st1 this] obtain x0 m where
    x0: "x0 \<in> set ?d2" "x = x0\<lparr>seq := Some (JNum (Num m))\<rparr>"
      "lookup ?s2 (getItemId P x0) = Some (JNum (Num m))"
    unfolding l1 by blast
  have "unseen ?s1 (getItemId P x0)"
    using assms(10) x0(2) by (simp add: l1)
  from assign_loop_new_greater [OF c1(1) b2 x0(1) this, of False] have m: "c1 < m"
    using x0(3) by auto
  have sx: "seq x = Some (JNum (Num m))"
    using x0(2) by simp
  have known: "\<exists>n. seq y = Some (JNum (Num n)) \<and> n \<le> c1"
    using assms(11)
  proof
    assume "y \<in> set out1"
    then have "y \<in> set ?a1"
      by (simp add: out1 set_sort_items)
    from assigned_item [OF rec0 this] obtain z n where
      n: "y = z\<lparr>seq := Some (JNum (Num n))\<rparr>" "lookup ?s1 (getItemId P z) = Some (JNum (Num n))"
      by blast
    from seq_inv_lookup [OF inv1 n(2)] have "n \<le> c1"
      using c1(1) by auto
    then show ?thesis
      using n(1) by auto
  next
    assume y: "y \<in> set out2 \<and> getItemId P y \<in> getItemId P ` set out1"
    then obtain y1 where y1: "y1 \<in> set ?a1" "getItemId P y = getItemId P y1"
      by (auto simp: out1 set_sort_items)
    from assigned_item [OF rec0 y1(1)] obtain z n where
      n: "y1 = z\<lparr>seq := Some (JNum (Num n))\<rparr>" "lookup ?s1 (getItemId P z) = Some (JNum (Num n))"
      by blast
    from seq_inv_lookup [OF inv1 n(2)] have le: "n \<le> c1"
      using c1(1) by auto
    have "lookup ?s1 (getItemId P y) = Some (JNum (Num n))"
      using n(1,2) y1(2) by simp
    then have kept: "lookup ?s2 (getItemId P y) = Some (JNum (Num n))"
      by (rule assign_loop_keeps) simp
    have "y \<in> set ?a2"
      using y by (simp add: out2 set_sort_items)
    from assigned_item [OF rec_st1 this] obtain y0 n' where
      "y = y0\<lparr>seq := Some (JNum (Num n'))\<rparr>" "lookup ?s2 (getItemId P y0) = Some (JNum (Num n'))"
      unfolding l1 by blast
    then have "seq y = Some (JNum (Num n))"
      using kept by simp
    then show ?thesis
      using le by blast
  qed
  then obtain n where n: "seq y = Some (JNum (Num n))" "n \<le> c1"
    by blast
  have less: "n < m"
    using n(2) m by simp
  have sorted: "sorted_wrt (spec_order P) out2"
    unfolding out2 by (intro sorted_sort_items) (rule assigned_numeric [OF inv_st1])
  have no: "\<not> spec_order P y x"
    using n(1) sx less by (simp add: spec_order_def seq_num_int)
  have pos: "\<forall>i j. i < length out2 \<and> j < length out2 \<and> out2 ! i = x \<and> out2 ! j = y \<longrightarrow> i < j"
  proof (intro allI impI)
    fix i j
    assume h: "i < length out2 \<and> j < length out2 \<and> out2 ! i = x \<and> out2 ! j = y"
    show "i < j"
    proof (rule ccontr)
      assume "\<not> i < j"
      then consider "j < i" | "i = j" by linarith
      then show False
      proof cases
        case 1
        then have "spec_order P (out2 ! j) (out2 ! i)"
          using sorted h by (auto simp: sorted_wrt_iff_nth_less)
        then show False using no h by simp
      next
        case 2
        then have "x = y" using h by auto
        then show False using sx n(1) less by simp
      qed
    qed
  qed
  show ?thesis
    using sx n(1) less pos by blast
qed

theorem new_keys_rank_first_witness:
  "(\<exists>m n. seq (blank_item\<lparr>cluster_id := Some ''b'', seq := Some (JNum (Num 2))\<rparr>) = Some (JNum (Num m)) \<and>
          seq (blank_item\<lparr>cluster_id := Some ''a'', seq := Some (JNum (Num 1))\<rparr>) = Some (JNum (Num n)) \<and>
          n < m) \<and>
   fst (normalize example_platform
          (Some [blank_item\<lparr>cluster_id := Some ''b''\<rparr>, blank_item\<lparr>cluster_id := Some ''a''\<rparr>])
          (snd (normalize example_platform (Some [blank_item\<lparr>cluster_id := Some ''a''\<rparr>])
                  empty_storage)))
     = [blank_item\<lparr>cluster_id := Some ''b'', seq := Some (JNum (Num 2))\<rparr>,
        blank_item\<lparr>cluster_id := Some ''a'', seq := Some (JNum (Num 1))\<rparr>]"
proof -
  let ?P = example_platform
  let ?a = "blank_item\<lparr>cluster_id := Some ''a''\<rparr>"
  let ?b = "blank_item\<lparr>cluster_id := Some ''b''\<rparr>"
  let ?a1 = "blank_item\<lparr>cluster_id := Some ''a'', seq := Some (JNum (Num 1))\<rparr>"
  let ?b2 = "blank_item\<lparr>cluster_id := Some ''b'', seq := Some (JNum (Num 2))\<rparr>"
  define s1 :: seq_state where
    "s1 = \<lparr>counter = Num 1, map_field = \<lparr>elems = None, props = [(''c:a'', JNum (Num 1))]\<rparr>\<rparr>"
  define st1 where "st1 = saveSeqState s1 empty_storage"
  have k: "dedupeKey ?P ?a = ''c:a''" "dedupeKey ?P ?b = ''c:b''"
    by (simp_all add: dedupeKey_def blank_item_def)
  have ids: "getItemId ?P ?a = ''c:a''" "getItemId ?P ?b = ''c:b''"
    by (simp_all add: getItemId_def k)
  have d1: "dedupeItems ?P [?a] = [?a]" and d2: "dedupeItems ?P [?b, ?a] = [?b, ?a]"
    by (simp_all add: dedupeItems_def k)
  have l0: "loadSeqState ?P empty_storage = fresh_state"
    by (simp add: loadSeqState_def empty_storage_def)
  have inv0: "seq_inv (loadSeqState ?P empty_storage)"
    by (simp add: l0 seq_inv_def fresh_state_def)
  have rw: "readable empty_storage" "writable empty_storage"
    by (simp_all add: empty_storage_def)
  have r1: "record_key fresh_state ''c:a'' = s1"
    by (simp add: record_key_def fresh_state_def s1_def Let_def add_one_def)
  have u0: "unseen fresh_state ''c:a''"
    by (simp add: unseen_def lookup_def fresh_state_def)
  have la: "lookup s1 ''c:a'' = Some (JNum (Num 1))" and lb: "lookup s1 ''c:b'' = None"
    by (simp_all add: lookup_def s1_def)
  have loop1: "assign_loop ?P fresh_state False [?a] = (s1, True, [?a1])"
    by (simp add: assign_loop_Cons ids u0 r1 la)
  have sort1: "sort_items ?P [?a1] = [?a1]"
    by (simp add: sort_items_def)
  have n1: "normalize ?P (Some [?a]) empty_storage = ([?a1], st1)"
    by (simp add: normalize_unfold d1 assignStableSeq_unfold l0 loop1 sort1 st1_def)
  have rec1: "int_record s1"
    by (simp add: int_record_def s1_def is_int_def)
  have l1: "loadSeqState ?P st1 = s1"
    unfolding st1_def using rec1 rw by (rule load_save_roundtrip)
  have counter_s1: "counter s1 = Num 1"
    by (simp add: s1_def)
  have ub: "unseen s1 ''c:b''" and sa: "\<not> unseen s1 ''c:a''"
    by (simp_all add: unseen_def la lb)
  define s2 where "s2 = record_key s1 ''c:b''"
  have l2: "lookup s2 ''c:b'' = Some (JNum (Num 2))" "lookup s2 ''c:a'' = Some (JNum (Num 1))"
    "\<not> unseen s2 ''c:a''"
    by (simp_all add: s2_def lookup_record_key unseen_def la counter_s1 add_one_def)
  have loop2: "snd (snd (assign_loop ?P s1 False [?b, ?a])) = [?b2, ?a1]"
    by (simp add: assign_loop_Cons ids ub s2_def [symmetric] l2)
  have sn: "seq_num ?P ?b2 = Num 2" "seq_num ?P ?a1 = Num 1"
    by (simp_all add: seq_num_def)
  have "\<not> positive (compare_items ?P ?b2 ?a1)"
    by (simp add: positive_compare [OF sn])
  then have sort2: "sort_items ?P [?b2, ?a1] = [?b2, ?a1]"
    by (simp add: sort_items_def)
  have out2: "fst (normalize ?P (Some [?b, ?a]) st1) = [?b2, ?a1]"
    by (simp add: normalize_unfold d2 assignStableSeq_unfold l1 loop2 sort2)
  have n2: "normalize ?P (Some [?b, ?a]) st1 = ([?b2, ?a1], snd (normalize ?P (Some [?b, ?a]) st1))"
    using out2 by (metis prod.collapse)
  have x: "?b2 \<in> set [?b2, ?a1]" and y: "?a1 \<in> set [?a1] \<or>
      (?a1 \<in> set [?b2, ?a1] \<and> getItemId ?P ?a1 \<in> getItemId ?P ` set [?a1])"
    by simp_all
  have new: "unseen (loadSeqState ?P st1) (getItemId ?P ?b2)"
    using ub by (simp add: l1 getItemId_def dedupeKey_def blank_item_def)
  have st1_eq: "snd (normalize ?P (Some [?a]) empty_storage) = st1"
    using n1 by simp
  have c0: "counter (loadSeqState ?P empty_storage) = Num 0"
    by (simp add: l0 fresh_state_def)
  have b: "- (2 ^ 53) \<le> (0::int)" "0 + int (length [?a]) + int (length [?b, ?a]) \<le> 2 ^ 53"
    by simp_all
  show ?thesis
    using new_keys_rank_first [OF inv0 rw c0 b n1 n2 x new y] out2
    unfolding st1_eq by blast
qed

end
